theory Spec2Isabelle
  imports Complex_Main "HOL-Library.AList"
begin

section \<open>The catalogue crawler of books\_parser.py\<close>

text \<open>
  The development embeds the crawl engine of \<^verbatim>\<open>books_parser.py\<close>: the retrying
  request (\<^verbatim>\<open>make_request\<close>), the two extractors (\<^verbatim>\<open>parse_book_card\<close>,
  \<^verbatim>\<open>parse_book_detail_page\<close>), the page walk (\<^verbatim>\<open>scrape_page\<close>,
  \<^verbatim>\<open>scrape_all_pages\<close>) and the merge of the detail records.

  Conventions of the model:
  \<^item> a Python \<^verbatim>\<open>str\<close> is a \<open>string\<close>, one \<open>char\<close> per code point, so the texts
    covered are those whose code points are below 256;
  \<^item> a Python \<^verbatim>\<open>float\<close> is an exact rational: rounding to binary64 and its range
    are not modelled;
  \<^item> a parsed document (\<^verbatim>\<open>BeautifulSoup(response.content, 'lxml')\<close>) is a tree of
    tags and text nodes, and the queries of the parser library are functions on that tree;
  \<^item> the network is a function from the history of requests and sleeps to the outcome
    of the next request; everything the code does to the outside (requests, sleeps) is
    appended to that history.
\<close>

subsection \<open>Parsed documents\<close>

datatype node =
    Text string
  | Tag string "string list option" "(string \<times> string) list" "node list"
  \<comment> \<open>tag name, tokens of the class attribute (if present), other attributes, children\<close>

subsection \<open>Configuration, responses and the network\<close>

record config =
  headers :: "(string \<times> string) list"
  min_delay :: rat
  max_delay :: rat
  max_retries :: int
  timeout :: rat
  base_url :: string

record response =
  status_code :: int
  content :: node

text \<open>What one call of \<^verbatim>\<open>session.get\<close> does: it returns a response or raises.\<close>

datatype outcome =
    Responds response
  | RaisesConnectionError
  | RaisesTimeout
  | RaisesTooManyRedirects
  | RaisesHTTPError
  | RaisesOther

datatype event = Get string | Sleep rat

type_synonym network = "event list \<Rightarrow> string \<Rightarrow> outcome"

subsection \<open>make\_request\<close>

definition backoff_delay :: "config \<Rightarrow> nat \<Rightarrow> rat" where
  "backoff_delay cfg attempt = min (min_delay cfg * 2 ^ attempt) (max_delay cfg * 3)"

text \<open>The statement after the \<^verbatim>\<open>try\<close> block: sleep unless this was the last attempt.\<close>

definition retry_sleep :: "config \<Rightarrow> nat \<Rightarrow> event list" where
  "retry_sleep cfg attempt =
     (if int attempt < max_retries cfg then [Sleep (backoff_delay cfg attempt)] else [])"

text \<open>
  The loop \<^verbatim>\<open>for attempt in range(config['max_retries'] + 1)\<close>, by recursion on the
  list of attempt numbers still to run. One round asks the network, which adds the
  request to the history, and then follows the branch of the source for the outcome: the
  status tests for a response, the \<^verbatim>\<open>except\<close> clause for an exception (a connection
  error, a timeout, an HTTP error and any other exception fall through to the sleep; the
  redirect loop returns at once). Falling off the loop returns \<open>None\<close>. The repair of
  \<^verbatim>\<open>response.encoding\<close> and the log lines have no part in the result.
\<close>

fun request_attempts ::
  "config \<Rightarrow> network \<Rightarrow> string \<Rightarrow> nat list \<Rightarrow> event list \<Rightarrow> response option \<times> event list"
where
  "request_attempts cfg net url [] tr = (None, tr)"
| "request_attempts cfg net url (attempt # rest) tr =
     (case net tr url of
        Responds r \<Rightarrow>
          if status_code r = 200 then (Some r, tr @ [Get url])
          else if 500 \<le> status_code r \<and> status_code r < 600
            then request_attempts cfg net url rest (tr @ [Get url] @ retry_sleep cfg attempt)
          else (None, tr @ [Get url])
      | RaisesConnectionError \<Rightarrow>
          request_attempts cfg net url rest (tr @ [Get url] @ retry_sleep cfg attempt)
      | RaisesTimeout \<Rightarrow>
          request_attempts cfg net url rest (tr @ [Get url] @ retry_sleep cfg attempt)
      | RaisesTooManyRedirects \<Rightarrow> (None, tr @ [Get url])
      | RaisesHTTPError \<Rightarrow>
          request_attempts cfg net url rest (tr @ [Get url] @ retry_sleep cfg attempt)
      | RaisesOther \<Rightarrow>
          request_attempts cfg net url rest (tr @ [Get url] @ retry_sleep cfg attempt))"

definition make_request ::
  "string \<Rightarrow> config \<Rightarrow> network \<Rightarrow> event list \<Rightarrow> response option \<times> event list"
where
  "make_request url cfg net tr =
     request_attempts cfg net url [0 ..< nat (max_retries cfg + 1)] tr"

text \<open>
  The configuration of \<^verbatim>\<open>constants.py\<close> (\<^verbatim>\<open>CUSTOM_CONFIG\<close>); the header values
  play no part in the model.
\<close>

definition CUSTOM_CONFIG :: config where
  "CUSTOM_CONFIG = \<lparr> headers = [], min_delay = 1, max_delay = 3, max_retries = 3,
     timeout = 10, base_url = ''https://books.toscrape.com'' \<rparr>"

subsection \<open>Strings\<close>

definition is_digit :: "char \<Rightarrow> bool" where
  "is_digit c = (c \<in> set ''0123456789'')"

text \<open>\<^verbatim>\<open>str.isspace\<close> on the code points below 256; the class \<^verbatim>\<open>\s\<close> is the same set.\<close>

definition is_space :: "char \<Rightarrow> bool" where
  "is_space c = (c \<in> set [CHR 0x09, CHR 0x0A, CHR 0x0B, CHR 0x0C, CHR 0x0D, CHR 0x1C,
     CHR 0x1D, CHR 0x1E, CHR 0x1F, CHR 0x20, CHR 0x85, CHR 0xA0])"

definition upper_chars :: string where
  "upper_chars = ''ABCDEFGHIJKLMNOPQRSTUVWXYZ'' @
     [CHR 0xC0, CHR 0xC1, CHR 0xC2, CHR 0xC3, CHR 0xC4, CHR 0xC5, CHR 0xC6, CHR 0xC7,
      CHR 0xC8, CHR 0xC9, CHR 0xCA, CHR 0xCB, CHR 0xCC, CHR 0xCD, CHR 0xCE, CHR 0xCF,
      CHR 0xD0, CHR 0xD1, CHR 0xD2, CHR 0xD3, CHR 0xD4, CHR 0xD5, CHR 0xD6,
      CHR 0xD8, CHR 0xD9, CHR 0xDA, CHR 0xDB, CHR 0xDC, CHR 0xDD, CHR 0xDE]"

definition lower_chars :: string where
  "lower_chars = ''abcdefghijklmnopqrstuvwxyz'' @
     [CHR 0xE0, CHR 0xE1, CHR 0xE2, CHR 0xE3, CHR 0xE4, CHR 0xE5, CHR 0xE6, CHR 0xE7,
      CHR 0xE8, CHR 0xE9, CHR 0xEA, CHR 0xEB, CHR 0xEC, CHR 0xED, CHR 0xEE, CHR 0xEF,
      CHR 0xF0, CHR 0xF1, CHR 0xF2, CHR 0xF3, CHR 0xF4, CHR 0xF5, CHR 0xF6,
      CHR 0xF8, CHR 0xF9, CHR 0xFA, CHR 0xFB, CHR 0xFC, CHR 0xFD, CHR 0xFE]"

definition lower_char :: "char \<Rightarrow> char" where
  "lower_char c = (case map_of (zip upper_chars lower_chars) c of Some l \<Rightarrow> l | None \<Rightarrow> c)"

text \<open>\<^verbatim>\<open>s.lower()\<close>, \<^verbatim>\<open>s.strip()\<close>, \<^verbatim>\<open>s.startswith(p)\<close> and \<^verbatim>\<open>p in s\<close>.\<close>

definition lower :: "string \<Rightarrow> string" where
  "lower s = map lower_char s"

definition strip :: "string \<Rightarrow> string" where
  "strip s = rev (dropWhile is_space (rev (dropWhile is_space s)))"

definition startswith :: "string \<Rightarrow> string \<Rightarrow> bool" where
  "startswith s p = (take (length p) s = p)"

fun contains :: "string \<Rightarrow> string \<Rightarrow> bool" where
  "contains [] p = (p = [])"
| "contains (c # cs) p = (startswith (c # cs) p \<or> contains cs p)"

text \<open>\<^verbatim>\<open>s.replace('../..', '')\<close>: every occurrence, left to right, without overlap.\<close>

fun remove_updirs :: "string \<Rightarrow> string" where
  "remove_updirs [] = []"
| "remove_updirs (c # cs) =
     (if startswith (c # cs) ''../..'' then remove_updirs (drop 4 cs)
      else c # remove_updirs cs)"

subsection \<open>Numbers read from text\<close>

definition digit_value :: "char \<Rightarrow> nat" where
  "digit_value c = (case map_of (zip ''0123456789'' [0, 1, 2, 3, 4, 5, 6, 7, 8, 9]) c of
                      Some d \<Rightarrow> d | None \<Rightarrow> 0)"

text \<open>\<^verbatim>\<open>int(s)\<close> on a non-empty string of digits (the interpreter's limit on the number
  of digits is not modelled).\<close>

definition digits_value :: "string \<Rightarrow> nat" where
  "digits_value ds = foldl (\<lambda>n c. 10 * n + digit_value c) 0 ds"

text \<open>
  \<^verbatim>\<open>float(s)\<close> on a string of digits and points, the only strings the code passes to
  it: the string is a number when it has at least one digit and at most one point, and
  \<^verbatim>\<open>float\<close> raises \<^verbatim>\<open>ValueError\<close> otherwise (\<open>None\<close>).
\<close>

definition py_float :: "string \<Rightarrow> rat option" where
  "py_float s =
     (let ip = takeWhile is_digit s; rest = dropWhile is_digit s
      in case rest of
           [] \<Rightarrow> if ip = [] then None else Some (of_nat (digits_value ip))
         | c # fp \<Rightarrow>
             if c = CHR ''.'' \<and> list_all is_digit fp \<and> (ip \<noteq> [] \<or> fp \<noteq> [])
             then Some (of_nat (digits_value ip) + of_nat (digits_value fp) / 10 ^ length fp)
             else None)"

subsection \<open>The three regular expressions\<close>

text \<open>\<^verbatim>\<open>re.search(r'[\d.]+', text)\<close>: the first maximal run of digits and points.\<close>

definition is_number_char :: "char \<Rightarrow> bool" where
  "is_number_char c = (is_digit c \<or> c = CHR ''.'')"

definition search_number :: "string \<Rightarrow> string option" where
  "search_number text =
     (let rest = dropWhile (\<lambda>c. \<not> is_number_char c) text
      in if rest = [] then None else Some (takeWhile is_number_char rest))"

text \<open>\<^verbatim>\<open>re.search(r'(\d+)', text)\<close>: the first maximal run of digits.\<close>

definition search_digits :: "string \<Rightarrow> string option" where
  "search_digits text =
     (let rest = dropWhile (\<lambda>c. \<not> is_digit c) text
      in if rest = [] then None else Some (takeWhile is_digit rest))"

text \<open>
  \<^verbatim>\<open>re.search(r'\((\d+)\s+available\)', text, re.IGNORECASE)\<close>. A match that starts
  at the head of \<open>s\<close> is a parenthesis, the longest run of digits (group 1), the longest
  run of white space and the word in any case, closed by a parenthesis; digits, white
  space and letters are disjoint, so the greedy choice is the only one. The search takes
  the leftmost start.
\<close>

definition match_available :: "string \<Rightarrow> string option" where
  "match_available s =
     (case s of
        [] \<Rightarrow> None
      | c # r \<Rightarrow>
          let ds = takeWhile is_digit r; r1 = dropWhile is_digit r;
              ws = takeWhile is_space r1; r2 = dropWhile is_space r1
          in if c = CHR ''('' \<and> ds \<noteq> [] \<and> ws \<noteq> [] \<and> startswith (lower r2) ''available)''
             then Some ds else None)"

fun search_available :: "string \<Rightarrow> string option" where
  "search_available [] = None"
| "search_available (c # cs) =
     (case match_available (c # cs) of
        Some ds \<Rightarrow> Some ds
      | None \<Rightarrow> search_available cs)"

subsection \<open>Queries on a parsed document\<close>

fun descendants :: "node \<Rightarrow> node list" where
  "descendants (Text s) = []"
| "descendants (Tag nm cls ats kids) = concat (map (\<lambda>k. k # descendants k) kids)"

fun get_text :: "node \<Rightarrow> string" where
  "get_text (Text s) = s"
| "get_text (Tag nm cls ats kids) = concat (map get_text kids)"

fun tag_name :: "node \<Rightarrow> string option" where
  "tag_name (Text s) = None"
| "tag_name (Tag nm cls ats kids) = Some nm"

text \<open>\<^verbatim>\<open>elem.get('class', [])\<close> and \<^verbatim>\<open>elem.get(key, default)\<close> for another attribute.\<close>

fun get_class :: "node \<Rightarrow> string list" where
  "get_class (Text s) = []"
| "get_class (Tag nm cls ats kids) = (case cls of None \<Rightarrow> [] | Some ts \<Rightarrow> ts)"

fun get_attr :: "node \<Rightarrow> string \<Rightarrow> string \<Rightarrow> string" where
  "get_attr (Text s) key dflt = dflt"
| "get_attr (Tag nm cls ats kids) key dflt =
     (case map_of ats key of None \<Rightarrow> dflt | Some v \<Rightarrow> v)"

fun join_with :: "string \<Rightarrow> string list \<Rightarrow> string" where
  "join_with sep [] = []"
| "join_with sep [x] = x"
| "join_with sep (x # y # ys) = x @ sep @ join_with sep (y # ys)"

text \<open>
  The filter \<^verbatim>\<open>class_=c\<close>: a tag matches when one of its class tokens is \<open>c\<close>, or
  when its tokens joined by single spaces are \<open>c\<close>; a tag with no class attribute does
  not match.
\<close>

fun class_matches :: "string \<Rightarrow> node \<Rightarrow> bool" where
  "class_matches c (Text s) = False"
| "class_matches c (Tag nm cls ats kids) =
     (case cls of None \<Rightarrow> False | Some ts \<Rightarrow> c \<in> set ts \<or> join_with '' '' ts = c)"

definition tag_matches :: "string \<Rightarrow> string option \<Rightarrow> node \<Rightarrow> bool" where
  "tag_matches nm cls e =
     (tag_name e = Some nm \<and> (case cls of None \<Rightarrow> True | Some c \<Rightarrow> class_matches c e))"

text \<open>\<^verbatim>\<open>elem.find_all(name, class_=c)\<close> and \<^verbatim>\<open>elem.find(name, class_=c)\<close>: the matching
  descendants in document order, and the first of them.\<close>

definition find_all :: "string \<Rightarrow> string option \<Rightarrow> node \<Rightarrow> node list" where
  "find_all nm cls e = filter (tag_matches nm cls) (descendants e)"

definition find_first :: "string \<Rightarrow> string option \<Rightarrow> node \<Rightarrow> node option" where
  "find_first nm cls e = (case find_all nm cls e of [] \<Rightarrow> None | x # xs \<Rightarrow> Some x)"

text \<open>\<^verbatim>\<open>soup.select('li.col-xs-6 article')\<close>: the \<^verbatim>\<open>article\<close> tags below an \<^verbatim>\<open>li\<close> tag
  with the class token, in document order. The flag says that such an \<^verbatim>\<open>li\<close> is
  among the ancestors of the children visited.\<close>

fun select_under :: "bool \<Rightarrow> node \<Rightarrow> node list" where
  "select_under inside (Text s) = []"
| "select_under inside (Tag nm cls ats kids) =
     concat (map (\<lambda>k.
        (if (inside \<or> (nm = ''li'' \<and> ''col-xs-6'' \<in> set (get_class (Tag nm cls ats []))))
            \<and> tag_name k = Some ''article'' then [k] else []) @
        select_under (inside \<or> (nm = ''li'' \<and> ''col-xs-6'' \<in> set (get_class (Tag nm cls ats []))))
          k) kids)"

definition select_li_article :: "node \<Rightarrow> node list" where
  "select_li_article soup = select_under False soup"

subsection \<open>Records, errors and the library function urljoin\<close>

text \<open>
  A record of the crawl is a Python \<^verbatim>\<open>dict\<close> from field names to values: an association
  list in insertion order, written with \<open>AList.update\<close> as \<^verbatim>\<open>d[k] = v\<close> writes it.
\<close>

datatype val = VStr string | VFloat rat | VInt int | VBool bool

type_synonym dict = "(string \<times> val) list"

datatype error = AttributeError | ValueError | KeyError | TaskError

text \<open>
  \<^verbatim>\<open>urllib.parse.urljoin\<close> is not code of the repository: the functions that call it
  take it as the parameter \<open>urljoin\<close>, which returns the joined address or raises.
\<close>

type_synonym urljoin = "string \<Rightarrow> string \<Rightarrow> error + string"

text \<open>\<^verbatim>\<open>d.update(other)\<close>.\<close>

definition dict_update :: "dict \<Rightarrow> dict \<Rightarrow> dict" where
  "dict_update d other = fold (\<lambda>(k, v). AList.update k v) other d"

definition RATING_MAP :: "(string \<times> int) list" where
  "RATING_MAP = [(''One'', 1), (''Two'', 2), (''Three'', 3),
                 (''Four'', 4), (''Five'', 5), (''Zero'', 0)]"

definition DEFAULT_RATING :: int where
  "DEFAULT_RATING = 0"

subsection \<open>The field rules shared by the two extractors\<close>

text \<open>\<^verbatim>\<open>elem.text.strip() if elem else ''\<close>.\<close>

definition elem_text :: "node option \<Rightarrow> string" where
  "elem_text elem = (case elem of None \<Rightarrow> [] | Some e \<Rightarrow> strip (get_text e))"

text \<open>\<^verbatim>\<open>float(m.group()) if m else 0.0\<close> for \<^verbatim>\<open>m = re.search(r'[\d.]+', text)\<close>.\<close>

definition number_or_zero :: "string \<Rightarrow> error + rat" where
  "number_or_zero text =
     (case search_number text of
        None \<Rightarrow> Inr 0
      | Some run \<Rightarrow> (case py_float run of None \<Rightarrow> Inl ValueError | Some x \<Rightarrow> Inr x))"

text \<open>The loop over the class tokens of the rating element, with its \<^verbatim>\<open>else\<close>.\<close>

fun first_rating :: "string list \<Rightarrow> int" where
  "first_rating [] = DEFAULT_RATING"
| "first_rating (cls # rest) =
     (case map_of RATING_MAP cls of Some r \<Rightarrow> r | None \<Rightarrow> first_rating rest)"

text \<open>The availability element: the exact class string first, then the single token.\<close>

definition find_stock_elem :: "node \<Rightarrow> node option" where
  "find_stock_elem card_node =
     (case find_first ''p'' (Some ''instock availability'') card_node of
        Some e \<Rightarrow> Some e
      | None \<Rightarrow> find_first ''p'' (Some ''availability'') card_node)"

definition stock_count :: "string \<Rightarrow> int" where
  "stock_count stock_text =
     (case search_available stock_text of
        Some ds \<Rightarrow> int (digits_value ds)
      | None \<Rightarrow>
          (case search_digits stock_text of
             Some ds \<Rightarrow> int (digits_value ds)
           | None \<Rightarrow> 0))"

definition stock_flag :: "node option \<Rightarrow> string \<Rightarrow> bool" where
  "stock_flag stock_elem stock_text =
     (case stock_elem of
        None \<Rightarrow> False
      | Some e \<Rightarrow> ''instock'' \<in> set (get_class e)
                 \<or> contains (lower stock_text) ''available''
                 \<or> contains (lower stock_text) ''in stock'')"

subsection \<open>parse\_book\_card\<close>

definition normalize_href :: "string \<Rightarrow> string" where
  "normalize_href href =
     (if startswith href ''../../../'' then ''catalogue/'' @ drop 9 href
      else if startswith href ''../../'' then ''catalogue/'' @ drop 6 href
      else if \<not> startswith href ''catalogue/'' then ''catalogue/'' @ href
      else href)"

text \<open>The body of the \<^verbatim>\<open>try\<close> block; \<open>Inl\<close> is the exception that leaves it.\<close>

definition card_fields :: "urljoin \<Rightarrow> node \<Rightarrow> string \<Rightarrow> error + dict" where
  "card_fields urljoin card_node base =
     (case find_first ''h3'' None card_node of
        None \<Rightarrow> Inl AttributeError
      | Some h3 \<Rightarrow>
     (case find_first ''a'' None h3 of
        None \<Rightarrow> Inl AttributeError
      | Some title_elem \<Rightarrow>
     (case number_or_zero (elem_text (find_first ''p'' (Some ''price_color'') card_node)) of
        Inl e \<Rightarrow> Inl e
      | Inr price \<Rightarrow>
     (case urljoin base (normalize_href (get_attr title_elem ''href'' [])) of
        Inl e \<Rightarrow> Inl e
      | Inr url \<Rightarrow>
          Inr [(''title'', VStr (get_attr title_elem ''title'' (strip (get_text title_elem)))),
               (''price'', VFloat price),
               (''rating'', VInt (first_rating
                  (case find_first ''p'' (Some ''star-rating'') card_node of
                     None \<Rightarrow> [] | Some rating_elem \<Rightarrow> get_class rating_elem))),
               (''stock'', VInt (stock_count (elem_text (find_stock_elem card_node)))),
               (''in_stock'', VBool (stock_flag (find_stock_elem card_node)
                                       (elem_text (find_stock_elem card_node)))),
               (''url'', VStr url)]))))"

definition parse_book_card :: "urljoin \<Rightarrow> node \<Rightarrow> string \<Rightarrow> dict option" where
  "parse_book_card urljoin card_node base =
     (case card_fields urljoin card_node base of Inl e \<Rightarrow> None | Inr book_info \<Rightarrow> Some book_info)"

subsection \<open>parse\_book\_detail\_page and scrape\_book\_detail\<close>

text \<open>One row of the attribute table.\<close>

definition table_row :: "node \<Rightarrow> dict \<Rightarrow> error + dict" where
  "table_row row book_details =
     (case find_first ''th'' None row of
        None \<Rightarrow> Inr book_details
      | Some header \<Rightarrow>
     (case find_first ''td'' None row of
        None \<Rightarrow> Inr book_details
      | Some value_elem \<Rightarrow>
          let header_text = lower (strip (get_text header));
              value_text = strip (get_text value_elem)
          in if contains header_text ''upc''
             then Inr (AList.update ''upc'' (VStr value_text) book_details)
             else if contains header_text ''product type''
             then Inr (AList.update ''product_type'' (VStr value_text) book_details)
             else if contains (lower header_text) ''price (excl. tax)''
             then (case number_or_zero value_text of
                     Inl e \<Rightarrow> Inl e
                   | Inr x \<Rightarrow> Inr (AList.update ''price_excl_tax'' (VFloat x) book_details))
             else if contains (lower header_text) ''price (incl. tax)''
             then (case number_or_zero value_text of
                     Inl e \<Rightarrow> Inl e
                   | Inr x \<Rightarrow> Inr (AList.update ''price_incl_tax'' (VFloat x) book_details))
             else if contains header_text ''tax'' \<and> \<not> contains header_text ''number''
             then (case number_or_zero value_text of
                     Inl e \<Rightarrow> Inl e
                   | Inr x \<Rightarrow> Inr (AList.update ''tax'' (VFloat x) book_details))
             else Inr book_details))"

fun table_rows :: "node list \<Rightarrow> dict \<Rightarrow> error + dict" where
  "table_rows [] book_details = Inr book_details"
| "table_rows (row # rows) book_details =
     (case table_row row book_details of
        Inl e \<Rightarrow> Inl e
      | Inr d \<Rightarrow> table_rows rows d)"

definition detail_table :: "node \<Rightarrow> dict \<Rightarrow> error + dict" where
  "detail_table soup book_details =
     (case find_first ''table'' (Some ''table table-striped'') soup of
        None \<Rightarrow> Inr book_details
      | Some table \<Rightarrow> table_rows (find_all ''tr'' None table) book_details)"

definition detail_category :: "node \<Rightarrow> dict \<Rightarrow> dict" where
  "detail_category soup book_details =
     (case find_first ''ul'' (Some ''breadcrumb'') soup of
        None \<Rightarrow> book_details
      | Some breadcrumb \<Rightarrow>
          let links = find_all ''a'' None breadcrumb
          in if length links \<ge> 3
             then AList.update ''category'' (VStr (strip (get_text (links ! 2)))) book_details
             else book_details)"

definition detail_image :: "urljoin \<Rightarrow> node \<Rightarrow> config \<Rightarrow> dict \<Rightarrow> error + dict" where
  "detail_image urljoin soup cfg book_details =
     (case find_first ''div'' (Some ''item active'') soup of
        None \<Rightarrow> Inr book_details
      | Some item \<Rightarrow>
     (case find_first ''img'' None item of
        None \<Rightarrow> Inr book_details
      | Some img_elem \<Rightarrow>
          let img_src = get_attr img_elem ''src'' []
          in if img_src \<noteq> []
             then (case urljoin (base_url cfg) (remove_updirs img_src) of
                     Inl e \<Rightarrow> Inl e
                   | Inr u \<Rightarrow> Inr (AList.update ''image_url'' (VStr u) book_details))
             else Inr book_details))"

text \<open>The body of the \<^verbatim>\<open>try\<close> block of \<^verbatim>\<open>parse_book_detail_page\<close>.\<close>

definition detail_fields :: "urljoin \<Rightarrow> node \<Rightarrow> string \<Rightarrow> config \<Rightarrow> error + dict" where
  "detail_fields urljoin soup url cfg =
     (case find_first ''div'' (Some ''product_main'') soup of
        None \<Rightarrow> Inl AttributeError
      | Some product_main \<Rightarrow>
     (case number_or_zero (elem_text (find_first ''p'' (Some ''price_color'') soup)) of
        Inl e \<Rightarrow> Inl e
      | Inr price \<Rightarrow>
     (case detail_table soup
             [(''title'', VStr (elem_text (find_first ''h1'' None product_main))),
              (''price'', VFloat price),
              (''stock'', VInt (stock_count (elem_text (find_stock_elem soup)))),
              (''in_stock'', VBool (stock_flag (find_stock_elem soup)
                                      (elem_text (find_stock_elem soup)))),
              (''rating'', VInt (first_rating
                 (case find_first ''p'' (Some ''star-rating'') soup of
                    None \<Rightarrow> [] | Some rating_elem \<Rightarrow> get_class rating_elem)))] of
        Inl e \<Rightarrow> Inl e
      | Inr with_table \<Rightarrow>
     (case detail_image urljoin soup cfg (detail_category soup with_table) of
        Inl e \<Rightarrow> Inl e
      | Inr with_image \<Rightarrow> Inr (AList.update ''url'' (VStr url) with_image)))))"

definition parse_book_detail_page ::
  "urljoin \<Rightarrow> string \<Rightarrow> config \<Rightarrow> network \<Rightarrow> event list \<Rightarrow> dict option \<times> event list"
where
  "parse_book_detail_page urljoin url cfg net tr =
     (case make_request url cfg net tr of
        (None, tr') \<Rightarrow> (None, tr')
      | (Some r, tr') \<Rightarrow>
          (case detail_fields urljoin (content r) url cfg of
             Inl e \<Rightarrow> (None, tr')
           | Inr book_details \<Rightarrow> (Some book_details, tr')))"

text \<open>
  \<^verbatim>\<open>scrape_book_detail(url, config)\<close> as the worker pool calls it: no session is
  passed, the function opens one of its own, so its history starts empty. The result is
  \<^verbatim>\<open>book_details or {}\<close>.
\<close>

definition detail_address :: "string \<Rightarrow> config \<Rightarrow> string" where
  "detail_address url cfg =
     (if \<not> startswith url ''http''
      then (if startswith url ''catalogue/'' then base_url cfg @ ''/'' @ url
            else base_url cfg @ ''/catalogue/'' @ url)
      else url)"

definition scrape_book_detail :: "urljoin \<Rightarrow> string \<Rightarrow> config \<Rightarrow> network \<Rightarrow> dict" where
  "scrape_book_detail urljoin url cfg net =
     (case fst (parse_book_detail_page urljoin (detail_address url cfg) cfg net []) of
        None \<Rightarrow> []
      | Some book_details \<Rightarrow> book_details)"

subsection \<open>scrape\_page\<close>

text \<open>The loop over the cards: a card that \<^verbatim>\<open>parse_book_card\<close> gives up on is skipped.\<close>

fun parse_cards :: "urljoin \<Rightarrow> node list \<Rightarrow> string \<Rightarrow> dict list" where
  "parse_cards urljoin [] base = []"
| "parse_cards urljoin (card_node # cards) base =
     (case parse_book_card urljoin card_node base of
        None \<Rightarrow> parse_cards urljoin cards base
      | Some book_info \<Rightarrow>
          if book_info \<noteq> [] then book_info # parse_cards urljoin cards base
          else parse_cards urljoin cards base)"

definition book_cards :: "node \<Rightarrow> node list" where
  "book_cards soup =
     (let cards = find_all ''article'' (Some ''product_pod'') soup
      in if cards = [] then select_li_article soup else cards)"

text \<open>The address of the next page; \<open>Inl\<close> when \<open>urljoin\<close> raises, which nothing
  in \<^verbatim>\<open>scrape_page\<close> catches.\<close>

definition next_page :: "urljoin \<Rightarrow> node \<Rightarrow> string \<Rightarrow> config \<Rightarrow> error + string option" where
  "next_page urljoin soup url cfg =
     (case find_first ''li'' (Some ''next'') soup of
        None \<Rightarrow> Inr None
      | Some next_link \<Rightarrow>
     (case find_first ''a'' None next_link of
        None \<Rightarrow> Inr None
      | Some next_a \<Rightarrow>
          let next_href = get_attr next_a ''href'' []
          in if next_href \<noteq> []
             then (case (if startswith next_href ''catalogue/''
                         then urljoin (base_url cfg) next_href
                         else urljoin url next_href) of
                     Inl e \<Rightarrow> Inl e
                   | Inr next_url \<Rightarrow> Inr (Some next_url))
             else Inr None))"

definition scrape_page ::
  "urljoin \<Rightarrow> string \<Rightarrow> config \<Rightarrow> network \<Rightarrow> event list
     \<Rightarrow> (error + dict list \<times> string option) \<times> event list"
where
  "scrape_page urljoin url cfg net tr =
     (case make_request url cfg net tr of
        (None, tr') \<Rightarrow> (Inr ([], None), tr')
      | (Some r, tr') \<Rightarrow>
          (case next_page urljoin (content r) url cfg of
             Inl e \<Rightarrow> (Inl e, tr')
           | Inr next_url \<Rightarrow>
               (Inr (parse_cards urljoin (book_cards (content r)) (base_url cfg), next_url),
                tr')))"

subsection \<open>scrape\_all\_pages: the page walk\<close>

text \<open>\<^verbatim>\<open>[book['url'] for book in books]\<close>.\<close>

fun urls_of :: "dict list \<Rightarrow> error + val list" where
  "urls_of [] = Inr []"
| "urls_of (book # books) =
     (case map_of book ''url'' of
        None \<Rightarrow> Inl KeyError
      | Some u \<Rightarrow> (case urls_of books of Inl e \<Rightarrow> Inl e | Inr us \<Rightarrow> Inr (u # us)))"

text \<open>
  The \<^verbatim>\<open>while current_url\<close> loop, which the function has twice: with
  \<open>get_detailed\<close> it also collects the addresses of the detail pages. The loop ends
  when the walk ends; a site whose pages link in a circle keeps it running, so the model
  counts iterations down from \<open>fuel\<close> and \<open>None\<close> says that the fuel did not suffice.
  The test \<^verbatim>\<open>if max_pages and page_num > max_pages\<close> reads the number \<open>0\<close> as false.
\<close>

fun collect_pages ::
  "nat \<Rightarrow> urljoin \<Rightarrow> config \<Rightarrow> network \<Rightarrow> int option \<Rightarrow> bool \<Rightarrow> string \<Rightarrow> int
     \<Rightarrow> dict list \<Rightarrow> val list \<Rightarrow> event list
     \<Rightarrow> ((error + dict list \<times> val list) \<times> event list) option"
where
  "collect_pages 0 urljoin cfg net max_pages get_detailed current_url page_num
     all_books detail_urls tr = None"
| "collect_pages (Suc fuel) urljoin cfg net max_pages get_detailed current_url page_num
     all_books detail_urls tr =
     (if current_url = [] then Some (Inr (all_books, detail_urls), tr)
      else if (case max_pages of None \<Rightarrow> False | Some m \<Rightarrow> m \<noteq> 0 \<and> page_num > m)
      then Some (Inr (all_books, detail_urls), tr)
      else
        (case scrape_page urljoin current_url cfg net tr of
           (Inl e, tr') \<Rightarrow> Some (Inl e, tr')
         | (Inr (books, next_url), tr') \<Rightarrow>
             (case (if get_detailed then urls_of books else Inr []) of
                Inl e \<Rightarrow> Some (Inl e, tr')
              | Inr urls \<Rightarrow>
                  (case next_url of
                     None \<Rightarrow> Some (Inr (all_books @ books, detail_urls @ urls), tr')
                   | Some u \<Rightarrow>
                       if u \<noteq> []
                       then collect_pages fuel urljoin cfg net max_pages get_detailed u
                              (page_num + 1) (all_books @ books) (detail_urls @ urls)
                              (tr' @ [Sleep (1 / 10)])
                       else Some (Inr (all_books @ books, detail_urls @ urls), tr')))))"

subsection \<open>scrape\_all\_pages: the detail pages\<close>

text \<open>\<^verbatim>\<open>{book['url']: book for book in all_books}\<close>: a later book with the same address
  replaces the earlier one and keeps its place. The keys are the \<^verbatim>\<open>url\<close> values of the
  records, which \<^verbatim>\<open>parse_book_card\<close> makes strings.\<close>

fun index_by_url :: "dict list \<Rightarrow> (val \<times> dict) list \<Rightarrow> error + (val \<times> dict) list" where
  "index_by_url [] book_dict = Inr book_dict"
| "index_by_url (book # books) book_dict =
     (case map_of book ''url'' of
        None \<Rightarrow> Inl KeyError
      | Some u \<Rightarrow> index_by_url books (AList.update u book book_dict))"

text \<open>
  A task of the pool runs \<^verbatim>\<open>scrape_book_detail(url, config)\<close> in a thread of its own,
  on a session of its own: what the network answers to it is the task's own \<open>network\<close>.
  \<open>Crashes\<close> stands for an exception that leaves the task, which
  \<^verbatim>\<open>future.result\<close> raises again and the loop catches. The futures that
  \<^verbatim>\<open>as_completed\<close> yields are finished, so \<^verbatim>\<open>future.result(timeout=10)\<close> returns or
  raises at once, and the time limit of that call never runs out.
\<close>

datatype worker = Crashes | Serves network

definition run_task :: "urljoin \<Rightarrow> config \<Rightarrow> worker \<Rightarrow> val \<Rightarrow> error + dict" where
  "run_task urljoin cfg w url =
     (case w of
        Crashes \<Rightarrow> Inl TaskError
      | Serves net \<Rightarrow>
          (case url of
             VStr u \<Rightarrow> Inr (scrape_book_detail urljoin u cfg net)
           | _ \<Rightarrow> Inl AttributeError))"

text \<open>One round of the loop over the completed futures.\<close>

definition merge_completed :: "(val \<times> dict) list \<Rightarrow> val \<times> (error + dict) \<Rightarrow> (val \<times> dict) list" where
  "merge_completed book_dict completed =
     (case completed of
        (url, Inl e) \<Rightarrow> book_dict
      | (url, Inr detailed_info) \<Rightarrow>
          (case map_of book_dict url of
             None \<Rightarrow> book_dict
           | Some book \<Rightarrow>
               if detailed_info \<noteq> []
               then AList.update url (dict_update book detailed_info) book_dict
               else book_dict))"

text \<open>
  The futures are numbered as submitted, one for each entry of \<open>detail_urls\<close>;
  \<^verbatim>\<open>as_completed\<close> yields them in the order \<open>order\<close>, a list of these numbers.
\<close>

definition as_completed :: "nat list \<Rightarrow> 'a list \<Rightarrow> 'a list" where
  "as_completed order futures = map (\<lambda>i. futures ! i) (filter (\<lambda>i. i < length futures) order)"

definition detail_pass ::
  "urljoin \<Rightarrow> config \<Rightarrow> (nat \<Rightarrow> worker) \<Rightarrow> nat list \<Rightarrow> dict list \<Rightarrow> val list
     \<Rightarrow> error + dict list"
where
  "detail_pass urljoin cfg workers order all_books detail_urls =
     (case index_by_url all_books [] of
        Inl e \<Rightarrow> Inl e
      | Inr book_dict \<Rightarrow>
          Inr (map snd
            (fold (\<lambda>completed bd. merge_completed bd completed)
               (as_completed order
                  (map (\<lambda>i. (detail_urls ! i,
                               run_task urljoin cfg (workers i) (detail_urls ! i)))
                     [0 ..< length detail_urls]))
               book_dict)))"

definition scrape_all_pages ::
  "nat \<Rightarrow> urljoin \<Rightarrow> (nat \<Rightarrow> worker) \<Rightarrow> nat list \<Rightarrow> network \<Rightarrow> config \<Rightarrow> int option \<Rightarrow> bool
     \<Rightarrow> ((error + dict list) \<times> event list) option"
where
  "scrape_all_pages fuel urljoin workers order net cfg max_pages get_detailed =
     (case collect_pages fuel urljoin cfg net max_pages get_detailed
             (base_url cfg @ ''/catalogue/page-1.html'') 1 [] [] [] of
        None \<Rightarrow> None
      | Some (Inl e, tr) \<Rightarrow> Some (Inl e, tr)
      | Some (Inr (all_books, detail_urls), tr) \<Rightarrow>
          if get_detailed
          then Some (detail_pass urljoin cfg workers order all_books detail_urls, tr)
          else Some (Inr all_books, tr))"

subsection \<open>A model of urljoin for the closed examples\<close>

text \<open>
  \<open>py_urljoin\<close> computes what \<^verbatim>\<open>urllib.parse.urljoin(base, url)\<close> returns when
  \<open>base\<close> is empty, and when \<open>base\<close> is \<^verbatim>\<open>http://host/path\<close> or
  \<^verbatim>\<open>https://host/path\<close> (the path may be missing) and \<open>url\<close> is a path, both without
  query, fragment, parameters, white space or control characters, and \<open>url\<close> without a
  scheme or an authority. It follows the library's steps: the last segment of the base
  path is dropped, the segments of \<open>url\<close> are appended, empty segments in the middle
  are removed, \<^verbatim>\<open>.\<close> and \<^verbatim>\<open>..\<close> are resolved. Only the closed examples use it, and
  only on such arguments.
\<close>

fun split_on :: "char \<Rightarrow> string \<Rightarrow> string list" where
  "split_on d [] = [[]]"
| "split_on d (c # cs) =
     (if c = d then [] # split_on d cs
      else (case split_on d cs of [] \<Rightarrow> [[c]] | p # ps \<Rightarrow> (c # p) # ps))"

fun resolve_segments :: "string list \<Rightarrow> string list \<Rightarrow> string list" where
  "resolve_segments [] resolved_path = resolved_path"
| "resolve_segments (seg # segs) resolved_path =
     (if seg = ''..'' then resolve_segments segs (butlast resolved_path)
      else if seg = ''.'' then resolve_segments segs resolved_path
      else resolve_segments segs (resolved_path @ [seg]))"

definition py_urljoin :: "string \<Rightarrow> string \<Rightarrow> string" where
  "py_urljoin base url =
     (if base = [] then url
      else if url = [] then base
      else
        let scheme = takeWhile (\<lambda>c. c \<noteq> CHR '':'') base;
            rest = drop (length scheme + 3) base;
            netloc = takeWhile (\<lambda>c. c \<noteq> CHR ''/'') rest;
            bpath = dropWhile (\<lambda>c. c \<noteq> CHR ''/'') rest;
            parts = split_on (CHR ''/'') bpath;
            base_parts = (if last parts \<noteq> [] then butlast parts else parts);
            joined = base_parts @ split_on (CHR ''/'') url;
            segments =
              (if take 1 url = ''/'' then split_on (CHR ''/'') url
               else if length joined < 2 then joined
               else take 1 joined @ filter (\<lambda>s. s \<noteq> []) (butlast (drop 1 joined))
                      @ [last joined]);
            resolved_path = resolve_segments segments []
              @ (if last segments = ''.'' \<or> last segments = ''..'' then [[]] else []);
            path = (if join_with ''/'' resolved_path = [] then ''/''
                    else join_with ''/'' resolved_path)
        in scheme @ ''://'' @ netloc @ (if take 1 path \<noteq> ''/'' then ''/'' @ path else path))"

definition std_urljoin :: urljoin where
  "std_urljoin base url = Inr (py_urljoin base url)"

subsection \<open>Notions used in the statements\<close>

text \<open>The number of requests in a history.\<close>

definition requests_made :: "event list \<Rightarrow> nat" where
  "requests_made tr = length (filter (\<lambda>e. case e of Get u \<Rightarrow> True | Sleep d \<Rightarrow> False) tr)"

definition server_error :: "outcome \<Rightarrow> bool" where
  "server_error out =
     (case out of Responds r \<Rightarrow> 500 \<le> status_code r \<and> status_code r < 600 | _ \<Rightarrow> False)"

definition client_error :: "outcome \<Rightarrow> bool" where
  "client_error out =
     (case out of Responds r \<Rightarrow> 400 \<le> status_code r \<and> status_code r < 500 | _ \<Rightarrow> False)"

text \<open>Every exception of \<^verbatim>\<open>session.get\<close> but the redirect loop: connection errors,
  timeouts and whatever else the transport raises.\<close>

definition network_failure :: "outcome \<Rightarrow> bool" where
  "network_failure out =
     (case out of Responds r \<Rightarrow> False | RaisesTooManyRedirects \<Rightarrow> False | _ \<Rightarrow> True)"

definition retryable :: "outcome \<Rightarrow> bool" where
  "retryable out = (server_error out \<or> network_failure out)"

text \<open>The history at the start of attempt \<open>k\<close> of a call that began with history \<open>tr\<close>,
  when the attempts before \<open>k\<close> were all retried.\<close>

definition attempt_history :: "config \<Rightarrow> string \<Rightarrow> event list \<Rightarrow> nat \<Rightarrow> event list" where
  "attempt_history cfg url tr k = tr @ concat (map (\<lambda>j. Get url # retry_sleep cfg j) [0 ..< k])"

subsection \<open>Example documents and networks\<close>

definition ok_response :: "node \<Rightarrow> response" where
  "ok_response soup = \<lparr> status_code = 200, content = soup \<rparr>"

definition always_503 :: network where
  "always_503 tr url = Responds \<lparr> status_code = 503, content = Text [] \<rparr>"

definition always_404 :: network where
  "always_404 tr url = Responds \<lparr> status_code = 404, content = Text [] \<rparr>"

definition once_503 :: network where
  "once_503 tr url =
     (if requests_made tr = 0 then Responds \<lparr> status_code = 503, content = Text [] \<rparr>
      else Responds (ok_response (Text [])))"

text \<open>A card as the catalogue pages have it, with the link, the price text, and the class
  tokens and the text of the availability paragraph left open.\<close>

definition listing_card :: "string \<Rightarrow> string \<Rightarrow> string list \<Rightarrow> string \<Rightarrow> node" where
  "listing_card href price_text stock_classes stock_text =
     Tag ''article'' (Some [''product_pod'']) []
       [Tag ''p'' (Some [''star-rating'', ''Three'']) [] [],
        Tag ''h3'' None []
          [Tag ''a'' None [(''href'', href), (''title'', ''A Light in the Attic'')]
             [Text ''A Light in the ...'']],
        Tag ''div'' (Some [''product_price'']) []
          [Tag ''p'' (Some [''price_color'']) [] [Text price_text],
           Tag ''p'' (Some stock_classes) [] [Text stock_text]]]"

definition listing_page :: "node list \<Rightarrow> string option \<Rightarrow> node" where
  "listing_page cards next_href =
     Tag ''html'' None []
       [Tag ''ol'' (Some [''row'']) []
          (map (\<lambda>c. Tag ''li'' (Some [''col-xs-6'', ''col-sm-4'']) [] [c]) cards),
        Tag ''ul'' (Some [''pager'']) []
          (case next_href of
             None \<Rightarrow> []
           | Some h \<Rightarrow> [Tag ''li'' (Some [''next'']) [] [Tag ''a'' None [(''href'', h)] [Text ''next'']]])]"

definition book_a :: node where
  "book_a = listing_card ''a_1/index.html'' (CHR 0xA3 # ''51.77'')
              [''instock'', ''availability''] ''  In stock  ''"

definition book_b :: node where
  "book_b = listing_card ''b_2/index.html'' (CHR 0xA3 # ''53.74'')
              [''instock'', ''availability''] ''  In stock  ''"

definition book_c :: node where
  "book_c = listing_card ''c_3/index.html'' (CHR 0xA3 # ''50.10'')
              [''instock'', ''availability''] ''  In stock  ''"

text \<open>A catalogue of three pages with one book each, and the same catalogue with its
  second page out of order.\<close>

definition three_pages :: network where
  "three_pages tr url =
     (if url = ''https://books.toscrape.com/catalogue/page-1.html''
      then Responds (ok_response (listing_page [book_a] (Some ''page-2.html'')))
      else if url = ''https://books.toscrape.com/catalogue/page-2.html''
      then Responds (ok_response (listing_page [book_b] (Some ''page-3.html'')))
      else if url = ''https://books.toscrape.com/catalogue/page-3.html''
      then Responds (ok_response (listing_page [book_c] None))
      else Responds \<lparr> status_code = 404, content = Text [] \<rparr>)"

definition second_page_down :: network where
  "second_page_down tr url =
     (if url = ''https://books.toscrape.com/catalogue/page-2.html''
      then Responds \<lparr> status_code = 503, content = Text [] \<rparr>
      else three_pages tr url)"

text \<open>The \<^verbatim>\<open>href\<close> of the link of a card (\<^verbatim>\<open>card.find('h3').find('a')\<close>), and the
  \<^verbatim>\<open>url\<close> field of an extracted record.\<close>

definition card_href :: "node \<Rightarrow> string option" where
  "card_href card_node =
     (case find_first ''h3'' None card_node of
        None \<Rightarrow> None
      | Some h3 \<Rightarrow>
          (case find_first ''a'' None h3 of
             None \<Rightarrow> None
           | Some link_elem \<Rightarrow> Some (get_attr link_elem ''href'' [])))"

definition url_field :: "dict option \<Rightarrow> val option" where
  "url_field r = (case r of None \<Rightarrow> None | Some d \<Rightarrow> map_of d ''url'')"

definition in_stock_card :: "string \<Rightarrow> node" where
  "in_stock_card href =
     listing_card href (CHR 0xA3 # ''51.77'') [''instock'', ''availability''] ''In stock''"

text \<open>The stripped texts the extractors read the price and the stock from.\<close>

definition price_text :: "node \<Rightarrow> string" where
  "price_text card_node = elem_text (find_first ''p'' (Some ''price_color'') card_node)"

definition stock_text :: "node \<Rightarrow> string" where
  "stock_text card_node = elem_text (find_stock_elem card_node)"

text \<open>\<open>run\<close> is the first run of characters of the class \<open>P\<close> in \<open>text\<close>: nothing of
  the class stands before it, and it cannot be extended to the right.\<close>

definition first_run :: "(char \<Rightarrow> bool) \<Rightarrow> string \<Rightarrow> string \<Rightarrow> bool" where
  "first_run P text run =
     (\<exists>pre post. text = pre @ run @ post \<and> list_all (\<lambda>c. \<not> P c) pre
        \<and> run \<noteq> [] \<and> list_all P run \<and> (post = [] \<or> \<not> P (hd post)))"

definition price_card :: "string \<Rightarrow> node" where
  "price_card price = listing_card ''a_1/index.html'' price [''instock'', ''availability''] ''In stock''"

text \<open>
  The pattern \<^verbatim>\<open>(<N> available)\<close> stands in \<open>text\<close> right after \<open>pre\<close>, with the digits
  \<open>ds\<close> as its count: a parenthesis, the digits, white space, the word in any case, a
  parenthesis.
\<close>

definition available_at :: "string \<Rightarrow> string \<Rightarrow> string \<Rightarrow> bool" where
  "available_at text pre ds =
     (\<exists>ws word post. text = pre @ ''('' @ ds @ ws @ word @ '')'' @ post
        \<and> ds \<noteq> [] \<and> list_all is_digit ds \<and> ws \<noteq> [] \<and> list_all is_space ws
        \<and> lower word = ''available'')"

text \<open>\<open>text\<close> contains the lower-case word \<open>p\<close> in some mix of cases.\<close>

definition contains_nocase :: "string \<Rightarrow> string \<Rightarrow> bool" where
  "contains_nocase text p = (\<exists>pre w post. text = pre @ w @ post \<and> lower w = p)"

definition stock_card :: "string list \<Rightarrow> string \<Rightarrow> node" where
  "stock_card stock_classes text =
     listing_card ''a_1/index.html'' (CHR 0xA3 # ''51.77'') stock_classes text"

text \<open>Two detail records for the examples of the merge: one without a category, one
  with a tax.\<close>

definition base_record :: dict where
  "base_record =
     [(''title'', VStr ''A Light in the Attic''), (''price'', VFloat (5177 / 100)),
      (''rating'', VInt 3), (''stock'', VInt 0), (''in_stock'', VBool True),
      (''url'', VStr ''https://books.toscrape.com/catalogue/a_1/index.html''),
      (''tax'', VFloat 1)]"

definition detail_page :: node where
  "detail_page =
     Tag ''html'' None []
       [Tag ''div'' (Some [''product_main'']) []
          [Tag ''h1'' None [] [Text ''A Light in the Attic''],
           Tag ''p'' (Some [''price_color'']) [] [Text (CHR 0xA3 # ''51.77'')],
           Tag ''p'' (Some [''instock'', ''availability'']) [] [Text '' In stock (22 available) ''],
           Tag ''p'' (Some [''star-rating'', ''Three'']) [] []],
        Tag ''table'' (Some [''table'', ''table-striped'']) []
          [Tag ''tr'' None [] [Tag ''th'' None [] [Text ''UPC''],
                               Tag ''td'' None [] [Text ''a897fe39b1053632'']],
           Tag ''tr'' None [] [Tag ''th'' None [] [Text ''Tax''],
                               Tag ''td'' None [] [Text (CHR 0xA3 # ''0.50'')]]]]"

definition detail_site :: network where
  "detail_site tr url =
     (if url = ''https://books.toscrape.com/catalogue/a_1/index.html''
      then Responds (ok_response detail_page)
      else Responds \<lparr> status_code = 404, content = Text [] \<rparr>)"

text \<open>
  What the detail pass makes of one base record: the record updated with the result of
  its own task, or the record itself when the task raised. A task has failed when it
  raised or returned the empty record, which is what \<^verbatim>\<open>scrape_book_detail\<close> returns
  when the page could not be fetched or read.
\<close>

definition merged_record :: "urljoin \<Rightarrow> config \<Rightarrow> worker \<Rightarrow> dict \<Rightarrow> val \<Rightarrow> dict" where
  "merged_record urljoin cfg w book url =
     (case run_task urljoin cfg w url of
        Inl e \<Rightarrow> book
      | Inr detailed_info \<Rightarrow> dict_update book detailed_info)"

definition task_failed :: "error + dict \<Rightarrow> bool" where
  "task_failed result = (case result of Inl e \<Rightarrow> True | Inr detailed_info \<Rightarrow> detailed_info = [])"

definition record_url :: "dict \<Rightarrow> val option" where
  "record_url book = map_of book ''url''"

text \<open>Every address is a string that starts with \<^verbatim>\<open>http\<close>.\<close>

definition absolute_urls :: "val list \<Rightarrow> bool" where
  "absolute_urls urls =
     list_all (\<lambda>v. case v of VStr u \<Rightarrow> startswith u ''http'' | _ \<Rightarrow> False) urls"

text \<open>Two base records and the workers of their tasks: the first task is served its
  detail page, the second one raises.\<close>

definition second_record :: dict where
  "second_record =
     [(''title'', VStr ''Tipping the Velvet''), (''price'', VFloat (5374 / 100)),
      (''rating'', VInt 1), (''stock'', VInt 0), (''in_stock'', VBool True),
      (''url'', VStr ''https://books.toscrape.com/catalogue/b_2/index.html'')]"

definition example_workers :: "nat \<Rightarrow> worker" where
  "example_workers i = (if i = 0 then Serves detail_site else Crashes)"

text \<open>The records and the history of the walk through the catalogue of three pages.\<close>

definition listing_record :: "string \<Rightarrow> rat \<Rightarrow> dict" where
  "listing_record name price =
     [(''title'', VStr ''A Light in the Attic''), (''price'', VFloat price),
      (''rating'', VInt 3), (''stock'', VInt 0), (''in_stock'', VBool True),
      (''url'', VStr (''https://books.toscrape.com/catalogue/'' @ name @ ''/index.html''))]"

definition three_page_records :: "dict list" where
  "three_page_records =
     [listing_record ''a_1'' (5177 / 100), listing_record ''b_2'' (5374 / 100),
      listing_record ''c_3'' (5010 / 100)]"

definition three_page_walk :: "event list" where
  "three_page_walk =
     [Get ''https://books.toscrape.com/catalogue/page-1.html'', Sleep (1 / 10),
      Get ''https://books.toscrape.com/catalogue/page-2.html'', Sleep (1 / 10),
      Get ''https://books.toscrape.com/catalogue/page-3.html'']"

section \<open>Properties\<close>

subsection \<open>The retry policy of make\_request\<close>

lemma attempt_history_Suc:
  "attempt_history cfg url tr (Suc k) = attempt_history cfg url tr k @ [Get url] @ retry_sleep cfg k"
  by (simp add: attempt_history_def)

lemma request_attempts_retry:
  "retryable (net tr url) \<Longrightarrow>
   request_attempts cfg net url (a # rest) tr =
     request_attempts cfg net url rest (tr @ [Get url] @ retry_sleep cfg a)"
  by (auto simp: retryable_def server_error_def network_failure_def split: outcome.splits)

lemma request_attempts_stop:
  "\<not> retryable (net tr url) \<Longrightarrow>
   request_attempts cfg net url (a # rest) tr =
     ((case net tr url of Responds r \<Rightarrow> if status_code r = 200 then Some r else None
        | _ \<Rightarrow> None), tr @ [Get url])"
  by (auto simp: retryable_def server_error_def network_failure_def split: outcome.splits)

lemma request_attempts_first_stop:
  assumes "a \<le> k" "k < n"
    and "\<forall>j. a \<le> j \<and> j < k \<longrightarrow> retryable (net (attempt_history cfg url tr j) url)"
    and "\<not> retryable (net (attempt_history cfg url tr k) url)"
  shows "request_attempts cfg net url [a ..< n] (attempt_history cfg url tr a) =
     ((case net (attempt_history cfg url tr k) url of
         Responds r \<Rightarrow> if status_code r = 200 then Some r else None | _ \<Rightarrow> None),
      attempt_history cfg url tr k @ [Get url])"
  using assms
proof (induction "k - a" arbitrary: a)
  case 0
  then have "a = k" by simp
  with 0 show ?case
    by (simp add: upt_conv_Cons request_attempts_stop del: request_attempts.simps)
next
  case (Suc d)
  then have lt: "a < k" and an: "a < n" by simp_all
  have r: "retryable (net (attempt_history cfg url tr a) url)"
    using Suc.prems lt by simp
  have "request_attempts cfg net url [a ..< n] (attempt_history cfg url tr a) =
        request_attempts cfg net url [Suc a ..< n] (attempt_history cfg url tr (Suc a))"
    using an r by (simp add: upt_conv_Cons request_attempts_retry attempt_history_Suc
        del: request_attempts.simps)
  also have "\<dots> = ((case net (attempt_history cfg url tr k) url of
         Responds r \<Rightarrow> if status_code r = 200 then Some r else None | _ \<Rightarrow> None),
      attempt_history cfg url tr k @ [Get url])"
    using Suc.hyps(1)[of "Suc a"] Suc.hyps(2) Suc.prems lt by simp
  finally show ?case .
qed

lemma request_attempts_exhaust:
  assumes "a \<le> n"
    and "\<forall>j. a \<le> j \<and> j < n \<longrightarrow> retryable (net (attempt_history cfg url tr j) url)"
  shows "request_attempts cfg net url [a ..< n] (attempt_history cfg url tr a) =
     (None, attempt_history cfg url tr n)"
  using assms
proof (induction "n - a" arbitrary: a)
  case 0
  then show ?case by simp
next
  case (Suc d)
  then have an: "a < n" by simp
  have r: "retryable (net (attempt_history cfg url tr a) url)"
    using Suc.prems an by simp
  have "request_attempts cfg net url [a ..< n] (attempt_history cfg url tr a) =
        request_attempts cfg net url [Suc a ..< n] (attempt_history cfg url tr (Suc a))"
    using an r by (simp add: upt_conv_Cons request_attempts_retry attempt_history_Suc
        del: request_attempts.simps)
  also have "\<dots> = (None, attempt_history cfg url tr n)"
    using Suc.hyps(1)[of "Suc a"] Suc.hyps(2) Suc.prems an by simp
  finally show ?case .
qed

lemma attempt_history_0: "attempt_history cfg url tr 0 = tr"
  by (simp add: attempt_history_def)

lemma requests_made_append: "requests_made (xs @ ys) = requests_made xs + requests_made ys"
  by (simp add: requests_made_def)

lemma requests_made_retry_sleep [simp]: "requests_made (retry_sleep cfg k) = 0"
  by (simp add: requests_made_def retry_sleep_def)

lemma requests_made_Nil [simp]: "requests_made [] = 0"
  by (simp add: requests_made_def)

lemma requests_made_Get [simp]: "requests_made (Get u # es) = Suc (requests_made es)"
  by (simp add: requests_made_def)

lemma requests_made_attempt_history:
  "requests_made (attempt_history cfg url tr k) = requests_made tr + k"
  by (induction k)
    (simp_all add: attempt_history_0 attempt_history_Suc requests_made_append)


lemma requests_made_request_attempts:
  "requests_made (snd (request_attempts cfg net url as tr)) \<le> requests_made tr + length as"
proof (induction as arbitrary: tr)
  case Nil
  show ?case by simp
next
  case (Cons a as)
  have step: "requests_made (snd (request_attempts cfg net url as
                 (tr @ [Get url] @ retry_sleep cfg a))) \<le> requests_made tr + length (a # as)"
    using Cons.IH [of "tr @ [Get url] @ retry_sleep cfg a"]
    by (simp add: requests_made_append)
  show ?case
  proof (cases "retryable (net tr url)")
    case True
    then show ?thesis
      using step by (simp only: request_attempts_retry)
  next
    case False
    then show ?thesis
      by (simp add: request_attempts_stop requests_made_append del: request_attempts.simps)
  qed
qed

text \<open>
  Claim C2. For a configuration whose \<open>max_retries\<close> is not negative, one call of
  \<open>make_request\<close> adds at most \<open>max_retries + 1\<close> requests to the history. When
  the attempts before attempt \<open>k\<close> were all retried and attempt \<open>k\<close> answers 200, the
  call returns that response and attempt \<open>k\<close> is its last event; when attempt \<open>k\<close>
  answers a 4xx status or raises the redirect loop error, the call returns \<open>None\<close>
  and attempt \<open>k\<close> is its last event. An attempt after attempt \<open>k\<close> is only made when
  attempt \<open>k\<close> gave a 5xx status or a failure of the network. When every attempt of the
  budget is of that kind, the call returns \<open>None\<close>.
\<close>

theorem make_request_retry_policy:
  assumes "0 \<le> max_retries cfg"
  shows "int (requests_made (snd (make_request url cfg net tr))) \<le>
           int (requests_made tr) + (max_retries cfg + 1)
       \<and> (\<forall>k. int k \<le> max_retries cfg
             \<and> (\<forall>j<k. retryable (net (attempt_history cfg url tr j) url)) \<longrightarrow>
           (\<forall>r. net (attempt_history cfg url tr k) url = Responds r \<and> status_code r = 200 \<longrightarrow>
               make_request url cfg net tr = (Some r, attempt_history cfg url tr k @ [Get url]))
         \<and> (client_error (net (attempt_history cfg url tr k) url)
              \<or> net (attempt_history cfg url tr k) url = RaisesTooManyRedirects \<longrightarrow>
               make_request url cfg net tr = (None, attempt_history cfg url tr k @ [Get url])))
       \<and> (\<forall>k. requests_made tr + k + 1 < requests_made (snd (make_request url cfg net tr)) \<longrightarrow>
             server_error (net (attempt_history cfg url tr k) url)
           \<or> network_failure (net (attempt_history cfg url tr k) url))
       \<and> ((\<forall>j. int j \<le> max_retries cfg \<longrightarrow>
               retryable (net (attempt_history cfg url tr j) url)) \<longrightarrow>
           make_request url cfg net tr =
             (None, attempt_history cfg url tr (nat (max_retries cfg + 1))))"
proof -
  let ?n = "nat (max_retries cfg + 1)"
  let ?H = "attempt_history cfg url tr"
  let ?res = "make_request url cfg net tr"
  have mr: "?res = request_attempts cfg net url [0 ..< ?n] (?H 0)"
    by (simp add: make_request_def attempt_history_0)
  have bound: "int (requests_made (snd ?res)) \<le> int (requests_made tr) + (max_retries cfg + 1)"
    using requests_made_request_attempts [of cfg net url "[0 ..< ?n]" tr] assms
    by (simp add: make_request_def)
  have stop: "?res = ((case net (?H k) url of
                 Responds r \<Rightarrow> if status_code r = 200 then Some r else None | _ \<Rightarrow> None),
               ?H k @ [Get url])"
    if "int k \<le> max_retries cfg" "\<forall>j<k. retryable (net (?H j) url)"
       "\<not> retryable (net (?H k) url)" for k
    unfolding mr using that assms
    by (intro request_attempts_first_stop) auto
  have succ: "?res = (Some r, ?H k @ [Get url])"
    if "int k \<le> max_retries cfg" "\<forall>j<k. retryable (net (?H j) url)"
       "net (?H k) url = Responds r" "status_code r = 200" for k r
  proof -
    have "\<not> retryable (net (?H k) url)"
      using that by (simp add: retryable_def server_error_def network_failure_def)
    from stop [OF that(1,2) this] that show ?thesis by simp
  qed
  have terminal: "?res = (None, ?H k @ [Get url])"
    if "int k \<le> max_retries cfg" "\<forall>j<k. retryable (net (?H j) url)"
       "client_error (net (?H k) url) \<or> net (?H k) url = RaisesTooManyRedirects" for k
  proof -
    have nr: "\<not> retryable (net (?H k) url)"
      using that(3)
      by (auto simp: retryable_def server_error_def network_failure_def client_error_def
          split: outcome.splits)
    have "(case net (?H k) url of
             Responds r \<Rightarrow> if status_code r = 200 then Some r else None | _ \<Rightarrow> None) = None"
      using that(3) by (auto simp: client_error_def split: outcome.splits)
    with stop [OF that(1,2) nr] show ?thesis by simp
  qed
  have exh: "?res = (None, ?H ?n)"
    if "\<forall>j. int j \<le> max_retries cfg \<longrightarrow> retryable (net (?H j) url)"
    unfolding mr using that by (intro request_attempts_exhaust) auto
  have only: "server_error (net (?H k) url) \<or> network_failure (net (?H k) url)"
    if more: "requests_made tr + k + 1 < requests_made (snd ?res)" for k
  proof (rule ccontr)
    assume neg: "\<not> (server_error (net (?H k) url) \<or> network_failure (net (?H k) url))"
    then have "\<exists>i. \<not> retryable (net (?H i) url)"
      by (auto simp: retryable_def)
    then obtain i where i: "\<not> retryable (net (?H i) url)"
      and least: "\<forall>j<i. retryable (net (?H j) url)"
      using exists_least_iff [of "\<lambda>i. \<not> retryable (net (?H i) url)"] by auto
    have ik: "i \<le> k"
      using least neg by (metis not_le_imp_less retryable_def)
    show False
    proof (cases "int i \<le> max_retries cfg")
      case True
      from stop [OF True least i]
      have "requests_made (snd ?res) = requests_made tr + i + 1"
        by (simp add: requests_made_append requests_made_attempt_history)
      with more ik show False by simp
    next
      case False
      with bound more ik show False by simp
    qed
  qed
  from bound succ terminal only exh show ?thesis by blast
qed


lemma retry_sleep_before:
  "int k \<le> max_retries cfg \<Longrightarrow> j < k \<Longrightarrow>
   retry_sleep cfg j = [Sleep (backoff_delay cfg j)]"
  by (simp add: retry_sleep_def)

lemma attempt_history_stop_shape:
  assumes "int k \<le> max_retries cfg"
  shows "attempt_history cfg url tr k @ [Get url] =
         tr @ concat (map (\<lambda>j. Get url #
                (if Suc j < Suc k then [Sleep (backoff_delay cfg j)] else [])) [0 ..< Suc k])"
proof -
  have "map (\<lambda>j. Get url # retry_sleep cfg j) [0 ..< k] =
        map (\<lambda>j. Get url # (if Suc j < Suc k then [Sleep (backoff_delay cfg j)] else []))
          [0 ..< k]"
    using assms by (intro map_cong) (simp_all add: retry_sleep_before)
  then have "attempt_history cfg url tr k =
        tr @ concat (map (\<lambda>j. Get url #
           (if Suc j < Suc k then [Sleep (backoff_delay cfg j)] else [])) [0 ..< k])"
    unfolding attempt_history_def by (rule arg_cong)
  then show ?thesis
    by simp
qed

lemma attempt_history_full_shape:
  assumes "n = nat (max_retries cfg + 1)"
  shows "attempt_history cfg url tr n =
         tr @ concat (map (\<lambda>j. Get url #
                (if Suc j < n then [Sleep (backoff_delay cfg j)] else [])) [0 ..< n])"
proof -
  have "map (\<lambda>j. Get url # retry_sleep cfg j) [0 ..< n] =
        map (\<lambda>j. Get url # (if Suc j < n then [Sleep (backoff_delay cfg j)] else []))
          [0 ..< n]"
    using assms by (intro map_cong) (auto simp: retry_sleep_def)
  then show ?thesis
    unfolding attempt_history_def by (rule arg_cong)
qed

text \<open>
  Claim C3. The events that one call of \<open>make_request\<close> adds to the history are
  \<open>m\<close> requests, for some \<open>m\<close> within the budget of \<open>max_retries + 1\<close>, and after
  each request \<open>k\<close> but the last one a sleep of
  \<open>min (min_delay * 2 ^ k) (max_delay * 3)\<close> seconds: the delay between attempt \<open>k\<close>
  and the next attempt is that minimum, and nothing is slept after the last attempt.
\<close>

theorem make_request_backoff:
  "\<exists>m \<le> nat (max_retries cfg + 1).
     snd (make_request url cfg net tr) =
       tr @ concat (map (\<lambda>k. Get url #
              (if Suc k < m
               then [Sleep (min (min_delay cfg * 2 ^ k) (max_delay cfg * 3))]
               else [])) [0 ..< m])"
proof -
  let ?n = "nat (max_retries cfg + 1)"
  let ?H = "attempt_history cfg url tr"
  let ?shape = "\<lambda>m. tr @ concat (map (\<lambda>k. Get url #
              (if Suc k < m then [Sleep (backoff_delay cfg k)] else [])) [0 ..< m])"
  have mr: "make_request url cfg net tr = request_attempts cfg net url [0 ..< ?n] (?H 0)"
    by (simp add: make_request_def attempt_history_0)
  have "\<exists>m \<le> ?n. snd (make_request url cfg net tr) = ?shape m"
  proof (cases "\<exists>k < ?n. \<not> retryable (net (?H k) url)")
    case True
    then obtain k where k: "k < ?n" "\<not> retryable (net (?H k) url)"
      and least: "\<forall>j<k. retryable (net (?H j) url)"
      using exists_least_iff [of "\<lambda>k. k < ?n \<and> \<not> retryable (net (?H k) url)"]
      by (metis (no_types, lifting) order.strict_trans)
    have "snd (make_request url cfg net tr) = ?H k @ [Get url]"
      unfolding mr using k least
      by (subst request_attempts_first_stop [where k = k]) auto
    also have "\<dots> = ?shape (Suc k)"
      using k(1) by (intro attempt_history_stop_shape) simp
    finally show ?thesis
      using k(1) by (intro exI [of _ "Suc k"]) simp
  next
    case False
    then have "snd (make_request url cfg net tr) = ?H ?n"
      unfolding mr by (subst request_attempts_exhaust) auto
    also have "\<dots> = ?shape ?n"
      by (rule attempt_history_full_shape) simp
    finally show ?thesis by blast
  qed
  then show ?thesis
    unfolding backoff_delay_def .
qed

lemma upt_4: "[0 ..< 4] = [0, 1, 2, Suc 2]"
  by (simp add: upt_rec numeral_eq_Suc)

theorem make_request_backoff_witness:
  "(\<exists>m \<le> nat (max_retries CUSTOM_CONFIG + 1).
     snd (make_request ''u'' CUSTOM_CONFIG always_503 []) =
       [] @ concat (map (\<lambda>k. Get ''u'' #
              (if Suc k < m
               then [Sleep (min (min_delay CUSTOM_CONFIG * 2 ^ k) (max_delay CUSTOM_CONFIG * 3))]
               else [])) [0 ..< m]))
   \<and> snd (make_request ''u'' CUSTOM_CONFIG always_503 []) =
       [Get ''u'', Sleep 1, Get ''u'', Sleep 2, Get ''u'', Sleep 4, Get ''u'']"
  using make_request_backoff [of CUSTOM_CONFIG "''u''" always_503 "[]"]
  by (simp add: make_request_def CUSTOM_CONFIG_def always_503_def retry_sleep_def
      backoff_delay_def upt_4)

theorem make_request_retry_policy_witness:
  "0 \<le> max_retries CUSTOM_CONFIG
   \<and> make_request ''u'' CUSTOM_CONFIG once_503 [] =
       (Some (ok_response (Text [])), [Get ''u'', Sleep 1, Get ''u''])
   \<and> make_request ''u'' CUSTOM_CONFIG always_404 [] = (None, [Get ''u''])
   \<and> make_request ''u'' CUSTOM_CONFIG always_503 [] =
       (None, [Get ''u'', Sleep 1, Get ''u'', Sleep 2, Get ''u'', Sleep 4, Get ''u''])
   \<and> int (requests_made (snd (make_request ''u'' CUSTOM_CONFIG always_503 []))) \<le> 0 + (3 + 1)"
proof -
  have h: "0 \<le> max_retries CUSTOM_CONFIG"
    by (simp add: CUSTOM_CONFIG_def)
  have hist: "attempt_history CUSTOM_CONFIG ''u'' [] 0 = []"
    "attempt_history CUSTOM_CONFIG ''u'' [] 1 = [Get ''u'', Sleep 1]"
    "attempt_history CUSTOM_CONFIG ''u'' [] (nat (max_retries CUSTOM_CONFIG + 1)) =
       [Get ''u'', Sleep 1, Get ''u'', Sleep 2, Get ''u'', Sleep 4, Get ''u'']"
    by (simp_all add: attempt_history_def retry_sleep_def backoff_delay_def CUSTOM_CONFIG_def
        upt_4)
  note policy = make_request_retry_policy [OF h]
  have a: "make_request ''u'' CUSTOM_CONFIG once_503 [] =
       (Some (ok_response (Text [])), attempt_history CUSTOM_CONFIG ''u'' [] 1 @ [Get ''u''])"
  proof -
    have "int 1 \<le> max_retries CUSTOM_CONFIG
        \<and> (\<forall>j<1. retryable (once_503 (attempt_history CUSTOM_CONFIG ''u'' [] j) ''u''))"
      using hist(1) by (simp add: CUSTOM_CONFIG_def once_503_def retryable_def server_error_def)
    moreover have "once_503 (attempt_history CUSTOM_CONFIG ''u'' [] 1) ''u'' =
        Responds (ok_response (Text [])) \<and> status_code (ok_response (Text [])) = 200"
      using hist(2) by (simp add: once_503_def ok_response_def requests_made_def)
    ultimately show ?thesis
      using policy [of "''u''" once_503 "[]"] by blast
  qed
  have b: "make_request ''u'' CUSTOM_CONFIG always_404 [] =
       (None, attempt_history CUSTOM_CONFIG ''u'' [] 0 @ [Get ''u''])"
  proof -
    have "int 0 \<le> max_retries CUSTOM_CONFIG
        \<and> (\<forall>j<0. retryable (always_404 (attempt_history CUSTOM_CONFIG ''u'' [] j) ''u''))"
      by (simp add: CUSTOM_CONFIG_def)
    moreover have "client_error (always_404 (attempt_history CUSTOM_CONFIG ''u'' [] 0) ''u'')"
      by (simp add: always_404_def client_error_def)
    ultimately show ?thesis
      using policy [of "''u''" always_404 "[]"] by blast
  qed
  have c: "make_request ''u'' CUSTOM_CONFIG always_503 [] =
       (None, attempt_history CUSTOM_CONFIG ''u'' [] (nat (max_retries CUSTOM_CONFIG + 1)))"
  proof -
    have "\<forall>j. int j \<le> max_retries CUSTOM_CONFIG \<longrightarrow>
        retryable (always_503 (attempt_history CUSTOM_CONFIG ''u'' [] j) ''u'')"
      by (simp add: always_503_def retryable_def server_error_def)
    then show ?thesis
      using policy [of "''u''" always_503 "[]"] by blast
  qed
  have d: "int (requests_made (snd (make_request ''u'' CUSTOM_CONFIG always_503 []))) \<le> 0 + (3 + 1)"
    using policy [of "''u''" always_503 "[]"]
    by (simp add: CUSTOM_CONFIG_def requests_made_def)
  from h a [unfolded hist] b [unfolded hist] c [unfolded hist] d show ?thesis
    by simp
qed

subsection \<open>The address of a listing card\<close>


lemma card_fields_url:
  assumes "card_fields urljoin card_node base = Inr r"
  shows "\<exists>href u. card_href card_node = Some href
           \<and> urljoin base (normalize_href href) = Inr u \<and> map_of r ''url'' = Some (VStr u)"
  using assms
  by (auto simp: card_fields_def card_href_def split: option.splits sum.splits)

lemma normalize_href_updirs: "normalize_href (''../../../'' @ x) = ''catalogue/'' @ x"
  by (simp add: normalize_href_def startswith_def)

lemma normalize_href_catalogue: "normalize_href (''catalogue/'' @ x) = ''catalogue/'' @ x"
  by (simp add: normalize_href_def startswith_def)

text \<open>
  Claim C1, amended. Whatever \<open>urljoin\<close> computes and whatever the base address is, a card
  whose link is \<^verbatim>\<open>../../../X\<close> and a card whose link is \<^verbatim>\<open>catalogue/X\<close> get the same
  \<^verbatim>\<open>url\<close> field, the join of the base address with \<^verbatim>\<open>catalogue/X\<close>.
\<close>

theorem parse_book_card_updirs_url:
  assumes "parse_book_card urljoin card1 base = Some r1"
    and "parse_book_card urljoin card2 base = Some r2"
    and "card_href card1 = Some (''../../../'' @ x)"
    and "card_href card2 = Some (''catalogue/'' @ x)"
  shows "url_field (Some r1) = url_field (Some r2)
       \<and> (\<exists>u. urljoin base (''catalogue/'' @ x) = Inr u \<and> url_field (Some r1) = Some (VStr u))"
proof -
  from assms(1) have "card_fields urljoin card1 base = Inr r1"
    by (simp add: parse_book_card_def split: sum.splits)
  from card_fields_url [OF this] assms(3)
  obtain u1 where u1: "urljoin base (''catalogue/'' @ x) = Inr u1" "map_of r1 ''url'' = Some (VStr u1)"
    by (auto simp: normalize_href_updirs simp del: append.simps)
  from assms(2) have "card_fields urljoin card2 base = Inr r2"
    by (simp add: parse_book_card_def split: sum.splits)
  from card_fields_url [OF this] assms(4)
  obtain u2 where u2: "urljoin base (''catalogue/'' @ x) = Inr u2" "map_of r2 ''url'' = Some (VStr u2)"
    by (auto simp: normalize_href_catalogue simp del: append.simps)
  from u1 u2 show ?thesis
    by (simp add: url_field_def)
qed

lemma py_urljoin_examples:
  "py_urljoin ''https://books.toscrape.com'' ''catalogue/foo.html'' =
     ''https://books.toscrape.com/catalogue/foo.html''"
  "py_urljoin ''https://books.toscrape.com'' ''catalogue/catalogue/foo.html'' =
     ''https://books.toscrape.com/catalogue/catalogue/foo.html''"
  by code_simp+

lemma py_urljoin_empty_base: "py_urljoin [] url = url"
  by (simp add: py_urljoin_def)

lemmas eval_strings = startswith_def strip_def is_space_def is_digit_def is_number_char_def
  lower_def lower_char_def upper_chars_def lower_chars_def digits_value_def digit_value_def

lemmas eval_dom = find_first_def find_all_def tag_matches_def elem_text_def

lemma listing_card_h3:
  "find_first ''h3'' None (listing_card href p cls t) =
     Some (Tag ''h3'' None []
          [Tag ''a'' None [(''href'', href), (''title'', ''A Light in the Attic'')]
             [Text ''A Light in the ...'']])"
  by (simp add: listing_card_def eval_dom)

lemma listing_card_price:
  "find_first ''p'' (Some ''price_color'') (listing_card href p cls t) =
     Some (Tag ''p'' (Some [''price_color'']) [] [Text p])"
  by (simp add: listing_card_def eval_dom)

lemma listing_card_rating:
  "find_first ''p'' (Some ''star-rating'') (listing_card href p cls t) =
     Some (Tag ''p'' (Some [''star-rating'', ''Three'']) [] [])"
  by (simp add: listing_card_def eval_dom)

lemma listing_card_stock_elem:
  "find_stock_elem (listing_card href p cls t) =
     (if class_matches ''instock availability'' (Tag ''p'' (Some cls) [] [Text t])
         \<or> class_matches ''availability'' (Tag ''p'' (Some cls) [] [Text t])
      then Some (Tag ''p'' (Some cls) [] [Text t]) else None)"
  by (simp add: listing_card_def eval_dom find_stock_elem_def)


lemma find_link_in_h3:
  "find_first ''a'' None (Tag ''h3'' None [] [Tag ''a'' None ats kids]) =
     Some (Tag ''a'' None ats kids)"
  by (simp add: eval_dom)

lemma first_rating_three: "first_rating [''star-rating'', ''Three''] = 3"
  by (simp add: RATING_MAP_def)

lemma listing_card_fields:
  "card_fields urljoin (listing_card href p cls t) base =
     (case number_or_zero (strip p) of
        Inl e \<Rightarrow> Inl e
      | Inr price \<Rightarrow>
     (case urljoin base (normalize_href href) of
        Inl e \<Rightarrow> Inl e
      | Inr u \<Rightarrow>
          Inr [(''title'', VStr ''A Light in the Attic''), (''price'', VFloat price),
               (''rating'', VInt 3),
               (''stock'', VInt (stock_count (elem_text (find_stock_elem
                   (listing_card href p cls t))))),
               (''in_stock'', VBool (stock_flag (find_stock_elem (listing_card href p cls t))
                   (elem_text (find_stock_elem (listing_card href p cls t))))),
               (''url'', VStr u)]))"
  by (simp add: card_fields_def listing_card_h3 listing_card_price listing_card_rating
      first_rating_three elem_text_def find_link_in_h3 del: first_rating.simps
      split: sum.splits)

lemma listing_card_href [simp]:
  "card_href (listing_card href p cls t) = Some href"
  by (simp add: card_href_def listing_card_h3 find_link_in_h3)

lemma price_51_77: "number_or_zero (strip (CHR 0xA3 # ''51.77'')) = Inr (5177 / 100)"
  by (simp add: number_or_zero_def search_number_def py_float_def eval_strings)

lemma in_stock_text:
  "stock_count (strip ''In stock'') = 0"
  "contains (lower (strip ''In stock'')) ''in stock''"
  by (simp_all add: stock_count_def search_digits_def match_available_def eval_strings)

lemma in_stock_card_fields:
  "card_fields urljoin (in_stock_card href) base =
     (case urljoin base (normalize_href href) of
        Inl e \<Rightarrow> Inl e
      | Inr u \<Rightarrow>
          Inr [(''title'', VStr ''A Light in the Attic''), (''price'', VFloat (5177 / 100)),
               (''rating'', VInt 3), (''stock'', VInt 0), (''in_stock'', VBool True),
               (''url'', VStr u)])"
  unfolding in_stock_card_def listing_card_fields listing_card_stock_elem price_51_77
  by (simp add: elem_text_def in_stock_text stock_flag_def split: sum.splits)

lemma in_stock_card_parse:
  "parse_book_card std_urljoin (in_stock_card href) base =
     Some [(''title'', VStr ''A Light in the Attic''), (''price'', VFloat (5177 / 100)),
           (''rating'', VInt 3), (''stock'', VInt 0), (''in_stock'', VBool True),
           (''url'', VStr (py_urljoin base (normalize_href href)))]"
  by (simp add: parse_book_card_def in_stock_card_fields std_urljoin_def)

theorem parse_book_card_updirs_url_witness:
  "parse_book_card std_urljoin (in_stock_card ''../../../foo.html'') ''https://books.toscrape.com''
     = Some [(''title'', VStr ''A Light in the Attic''), (''price'', VFloat (5177 / 100)),
             (''rating'', VInt 3), (''stock'', VInt 0), (''in_stock'', VBool True),
             (''url'', VStr ''https://books.toscrape.com/catalogue/foo.html'')]
   \<and> url_field (parse_book_card std_urljoin (in_stock_card ''../../../foo.html'')
         ''https://books.toscrape.com'')
     = url_field (parse_book_card std_urljoin (in_stock_card ''catalogue/foo.html'')
         ''https://books.toscrape.com'')"
proof -
  let ?base = "''https://books.toscrape.com''"
  let ?u = "VStr ''https://books.toscrape.com/catalogue/foo.html''"
  let ?r = "[(''title'', VStr ''A Light in the Attic''), (''price'', VFloat (5177 / 100)),
             (''rating'', VInt 3), (''stock'', VInt 0), (''in_stock'', VBool True),
             (''url'', ?u)]"
  have p1: "parse_book_card std_urljoin (in_stock_card ''../../../foo.html'') ?base = Some ?r"
    by (simp add: in_stock_card_parse normalize_href_def startswith_def py_urljoin_examples)
  have p2: "parse_book_card std_urljoin (in_stock_card ''catalogue/foo.html'') ?base = Some ?r"
    by (simp add: in_stock_card_parse normalize_href_def startswith_def py_urljoin_examples)
  have h1: "card_href (in_stock_card ''../../../foo.html'') = Some (''../../../'' @ ''foo.html'')"
    by (simp add: in_stock_card_def)
  have h2: "card_href (in_stock_card ''catalogue/foo.html'') = Some (''catalogue/'' @ ''foo.html'')"
    by (simp add: in_stock_card_def)
  from parse_book_card_updirs_url [OF p1 p2 h1 h2] p1 p2 show ?thesis
    by simp
qed

theorem parse_book_card_updirs_catalogue_counterexample:
  "url_field (parse_book_card std_urljoin (in_stock_card ''../../../catalogue/foo.html'')
       ''https://books.toscrape.com'')
     = Some (VStr ''https://books.toscrape.com/catalogue/catalogue/foo.html'')
   \<and> url_field (parse_book_card std_urljoin (in_stock_card ''catalogue/foo.html'')
       ''https://books.toscrape.com'')
     = Some (VStr ''https://books.toscrape.com/catalogue/foo.html'')
   \<and> url_field (parse_book_card std_urljoin (in_stock_card ''../../../catalogue/foo.html'')
       ''https://books.toscrape.com'')
     \<noteq> url_field (parse_book_card std_urljoin (in_stock_card ''catalogue/foo.html'')
       ''https://books.toscrape.com'')
   \<and> url_field (parse_book_card std_urljoin (in_stock_card ''../../../catalogue/foo.html'') [])
     = Some (VStr ''catalogue/catalogue/foo.html'')
   \<and> url_field (parse_book_card std_urljoin (in_stock_card ''catalogue/foo.html'') [])
     = Some (VStr ''catalogue/foo.html'')"
  by (simp add: in_stock_card_parse normalize_href_def startswith_def py_urljoin_examples
      py_urljoin_empty_base url_field_def)

subsection \<open>The price of a listing card\<close>


lemma first_run_search:
  assumes "first_run P text run"
  shows "dropWhile (\<lambda>c. \<not> P c) text \<noteq> []"
    and "takeWhile P (dropWhile (\<lambda>c. \<not> P c) text) = run"
proof -
  from assms obtain pre post where t: "text = pre @ run @ post"
    and pre: "list_all (\<lambda>c. \<not> P c) pre" and run: "run \<noteq> []" "list_all P run"
    and post: "post = [] \<or> \<not> P (hd post)"
    unfolding first_run_def by blast
  from run obtain c cs where r: "run = c # cs" and c: "P c"
    by (cases run) auto
  have d: "dropWhile (\<lambda>c. \<not> P c) text = run @ post"
    using pre c unfolding t r by (simp add: list_all_iff)
  show "dropWhile (\<lambda>c. \<not> P c) text \<noteq> []"
    using d run by simp
  have "takeWhile P post = []"
    using post by (cases post) auto
  then show "takeWhile P (dropWhile (\<lambda>c. \<not> P c) text) = run"
    using run(2) unfolding d by (simp add: list_all_iff)
qed

lemma no_run_search:
  "list_all (\<lambda>c. \<not> P c) text \<Longrightarrow> dropWhile (\<lambda>c. \<not> P c) text = []"
  by (simp add: list_all_iff)

lemma search_number_first_run:
  assumes "first_run is_number_char text run"
  shows "search_number text = Some run"
  using first_run_search [OF assms]
  by (simp only: search_number_def Let_def if_False)

lemma search_number_none:
  "list_all (\<lambda>c. \<not> is_number_char c) text \<Longrightarrow> search_number text = None"
  by (simp add: search_number_def no_run_search)

lemma card_fields_price:
  assumes "card_fields urljoin card_node base = Inr r"
  shows "\<exists>x. number_or_zero (price_text card_node) = Inr x \<and> map_of r ''price'' = Some (VFloat x)"
  using assms
  by (auto simp: card_fields_def price_text_def split: option.splits sum.splits)

lemma card_fields_price_error:
  assumes "number_or_zero (price_text card_node) = Inl e"
  shows "\<exists>e'. card_fields urljoin card_node base = Inl e'"
  using assms
  by (auto simp: card_fields_def price_text_def split: option.splits sum.splits)

lemma parse_book_card_Some:
  "parse_book_card urljoin card_node base = Some r \<longleftrightarrow> card_fields urljoin card_node base = Inr r"
  by (simp add: parse_book_card_def split: sum.splits)

lemma parse_book_card_None:
  "parse_book_card urljoin card_node base = None \<longleftrightarrow>
     (\<exists>e. card_fields urljoin card_node base = Inl e)"
  by (simp add: parse_book_card_def split: sum.splits)

text \<open>
  Claim C6, amended. For every listing card: when the first run of digits and decimal
  points in the text of the price element reads as a number (\<open>py_float\<close>: at least one
  digit, at most one point), every record extracted from the card has that number as its
  \<^verbatim>\<open>price\<close>; when the run does not read as a number, no record is extracted; when the
  text has no digit and no decimal point, and so when the price element is absent, every
  record extracted has the price \<open>0\<close>.
\<close>

theorem parse_book_card_price:
  "(\<forall>run x r. first_run is_number_char (price_text card_node) run \<and> py_float run = Some x
        \<and> parse_book_card urljoin card_node base = Some r
      \<longrightarrow> map_of r ''price'' = Some (VFloat x))
   \<and> (\<forall>run. first_run is_number_char (price_text card_node) run \<and> py_float run = None
      \<longrightarrow> parse_book_card urljoin card_node base = None)
   \<and> (\<forall>r. list_all (\<lambda>c. \<not> is_number_char c) (price_text card_node)
        \<and> parse_book_card urljoin card_node base = Some r
      \<longrightarrow> map_of r ''price'' = Some (VFloat 0))
   \<and> (\<forall>r. find_first ''p'' (Some ''price_color'') card_node = None
        \<and> parse_book_card urljoin card_node base = Some r
      \<longrightarrow> map_of r ''price'' = Some (VFloat 0))"
proof (intro conjI allI impI)
  fix run x r
  assume a: "first_run is_number_char (price_text card_node) run \<and> py_float run = Some x
        \<and> parse_book_card urljoin card_node base = Some r"
  then have "search_number (price_text card_node) = Some run"
    by (intro search_number_first_run) simp
  with a have "number_or_zero (price_text card_node) = Inr x"
    by (simp add: number_or_zero_def)
  with a card_fields_price [of urljoin card_node base r]
  show "map_of r ''price'' = Some (VFloat x)"
    by (auto simp: parse_book_card_Some)
next
  fix run
  assume a: "first_run is_number_char (price_text card_node) run \<and> py_float run = None"
  then have "search_number (price_text card_node) = Some run"
    by (intro search_number_first_run) simp
  with a have "number_or_zero (price_text card_node) = Inl ValueError"
    by (simp add: number_or_zero_def)
  from card_fields_price_error [OF this]
  show "parse_book_card urljoin card_node base = None"
    by (simp add: parse_book_card_None)
next
  fix r
  assume a: "list_all (\<lambda>c. \<not> is_number_char c) (price_text card_node)
        \<and> parse_book_card urljoin card_node base = Some r"
  then have "number_or_zero (price_text card_node) = Inr 0"
    by (simp add: number_or_zero_def search_number_none)
  with a card_fields_price [of urljoin card_node base r]
  show "map_of r ''price'' = Some (VFloat 0)"
    by (auto simp: parse_book_card_Some)
next
  fix r
  assume a: "find_first ''p'' (Some ''price_color'') card_node = None
        \<and> parse_book_card urljoin card_node base = Some r"
  then have "price_text card_node = []"
    by (simp add: price_text_def elem_text_def)
  then have "number_or_zero (price_text card_node) = Inr 0"
    by (simp add: number_or_zero_def search_number_def)
  with a card_fields_price [of urljoin card_node base r]
  show "map_of r ''price'' = Some (VFloat 0)"
    by (auto simp: parse_book_card_Some)
qed

lemma listing_card_price_text: "price_text (listing_card href p cls t) = strip p"
  by (simp add: price_text_def listing_card_price elem_text_def)

lemma price_card_parse:
  "parse_book_card std_urljoin (price_card p) base =
     (case number_or_zero (strip p) of
        Inl e \<Rightarrow> None
      | Inr x \<Rightarrow>
          Some [(''title'', VStr ''A Light in the Attic''), (''price'', VFloat x),
                (''rating'', VInt 3), (''stock'', VInt 0), (''in_stock'', VBool True),
                (''url'', VStr (py_urljoin base ''catalogue/a_1/index.html''))])"
proof -
  have "normalize_href ''a_1/index.html'' = ''catalogue/a_1/index.html''"
    by (simp add: normalize_href_def startswith_def)
  then show ?thesis
    unfolding parse_book_card_def price_card_def listing_card_fields listing_card_stock_elem
    by (simp add: elem_text_def in_stock_text stock_flag_def std_urljoin_def split: sum.splits)
qed

lemma price_examples:
  "strip (CHR 0xA3 # ''51.77'') = CHR 0xA3 # ''51.77''"
  "py_float ''51.77'' = Some (5177 / 100)"
  "strip ''n.a.'' = ''n.a.''"
  "search_number ''n.a.'' = Some ''.''"
  "py_float ''.'' = None"
  "strip ''free'' = ''free''"
  "number_or_zero ''n.a.'' = Inl ValueError"
  "number_or_zero ''free'' = Inr 0"
  by (simp_all add: number_or_zero_def search_number_def py_float_def eval_strings)

theorem parse_book_card_price_witness:
  "first_run is_number_char (price_text (price_card (CHR 0xA3 # ''51.77''))) ''51.77''
   \<and> py_float ''51.77'' = Some (5177 / 100)
   \<and> (\<exists>r. parse_book_card std_urljoin (price_card (CHR 0xA3 # ''51.77'')) [] = Some r
          \<and> map_of r ''price'' = Some (VFloat (5177 / 100)))
   \<and> first_run is_number_char (price_text (price_card ''n.a.'')) ''.''
   \<and> py_float ''.'' = None
   \<and> parse_book_card std_urljoin (price_card ''n.a.'') [] = None
   \<and> list_all (\<lambda>c. \<not> is_number_char c) (price_text (price_card ''free''))
   \<and> (\<exists>r. parse_book_card std_urljoin (price_card ''free'') [] = Some r
          \<and> map_of r ''price'' = Some (VFloat 0))"
proof -
  let ?c1 = "price_card (CHR 0xA3 # ''51.77'')"
  have t1: "price_text ?c1 = [CHR 0xA3] @ ''51.77'' @ []"
    by (simp add: price_card_def listing_card_price_text price_examples)
  have f1: "first_run is_number_char (price_text ?c1) ''51.77''"
    unfolding first_run_def t1
    by (intro exI [of _ "[CHR 0xA3]"] exI [of _ "[]"])
      (simp add: is_number_char_def is_digit_def)
  obtain r1 where p1: "parse_book_card std_urljoin ?c1 [] = Some r1"
    by (simp add: price_card_parse price_51_77)
  have t2: "price_text (price_card ''n.a.'') = ''n'' @ ''.'' @ ''a.''"
    by (simp add: price_card_def listing_card_price_text price_examples)
  have f2: "first_run is_number_char (price_text (price_card ''n.a.'')) ''.''"
    unfolding first_run_def t2
    by (intro exI [of _ "''n''"] exI [of _ "''a.''"])
      (simp add: is_number_char_def is_digit_def)
  have t3: "price_text (price_card ''free'') = ''free''"
    by (simp add: price_card_def listing_card_price_text price_examples)
  have f3: "list_all (\<lambda>c. \<not> is_number_char c) (price_text (price_card ''free''))"
    unfolding t3 by (simp add: is_number_char_def is_digit_def)
  obtain r3 where p3: "parse_book_card std_urljoin (price_card ''free'') [] = Some r3"
    by (simp add: price_card_parse price_examples)
  note T1 = parse_book_card_price [of ?c1 std_urljoin "[]"]
  note T2 = parse_book_card_price [of "price_card ''n.a.''" std_urljoin "[]"]
  note T3 = parse_book_card_price [of "price_card ''free''" std_urljoin "[]"]
  have a: "map_of r1 ''price'' = Some (VFloat (5177 / 100))"
    using T1 f1 p1 price_examples(2) by blast
  have b: "parse_book_card std_urljoin (price_card ''n.a.'') [] = None"
    using T2 f2 price_examples(5) by blast
  have c: "map_of r3 ''price'' = Some (VFloat 0)"
    using T3 f3 p3 by blast
  from f1 price_examples(2) p1 a f2 price_examples(5) b f3 p3 c show ?thesis
    by blast
qed

theorem parse_book_card_price_counterexample:
  "price_text (price_card ''n.a.'') = ''n.a.''
   \<and> search_number ''n.a.'' = Some ''.''
   \<and> py_float ''.'' = None
   \<and> parse_book_card std_urljoin (price_card ''n.a.'') ''https://books.toscrape.com'' = None"
  by (simp add: price_card_parse price_examples)
    (simp add: price_card_def listing_card_price_text price_examples)

subsection \<open>The stock of a listing card\<close>


lemma space_not_digit: "is_space c \<Longrightarrow> \<not> is_digit c"
  by (auto simp: is_space_def is_digit_def)

lemma lower_char_range: "lower_char c = c \<or> lower_char c \<in> set lower_chars"
proof (cases "map_of (zip upper_chars lower_chars) c")
  case None
  then show ?thesis by (simp add: lower_char_def)
next
  case (Some l)
  then have "l \<in> set lower_chars"
    by (meson map_of_SomeD set_zip_rightD)
  with Some show ?thesis by (simp add: lower_char_def)
qed

lemma lower_char_paren: "lower_char c = CHR '')'' \<longleftrightarrow> c = CHR '')''"
proof
  assume "lower_char c = CHR '')''"
  with lower_char_range [of c] show "c = CHR '')''"
    by (auto simp: lower_chars_def)
next
  assume "c = CHR '')''"
  then show "lower_char c = CHR '')''"
    by (simp add: lower_char_def upper_chars_def lower_chars_def)
qed

lemma space_not_letter_a: "is_space c \<Longrightarrow> lower_char c \<noteq> CHR ''a''"
  by (auto simp: is_space_def lower_char_def upper_chars_def lower_chars_def)

lemma lower_append: "lower (xs @ ys) = lower xs @ lower ys"
  by (simp add: lower_def)

lemma length_lower [simp]: "length (lower xs) = length xs"
  by (simp add: lower_def)

lemma startswith_iff: "startswith s p \<longleftrightarrow> (\<exists>post. s = p @ post)"
proof
  assume "startswith s p"
  then have "s = p @ drop (length p) s"
    by (metis append_take_drop_id startswith_def)
  then show "\<exists>post. s = p @ post" ..
next
  assume "\<exists>post. s = p @ post"
  then show "startswith s p"
    by (auto simp: startswith_def)
qed

lemma takeWhile_run:
  assumes "list_all P xs" and "ys = [] \<or> \<not> P (hd ys)"
  shows "takeWhile P (xs @ ys) = xs" and "dropWhile P (xs @ ys) = ys"
proof -
  have t: "takeWhile P ys = []" and d: "dropWhile P ys = ys"
    using assms(2) by (cases ys; auto)+
  show "takeWhile P (xs @ ys) = xs"
    using assms(1) t by (simp add: list_all_iff)
  show "dropWhile P (xs @ ys) = ys"
    using assms(1) d by (simp add: list_all_iff)
qed

lemma lower_available_head:
  assumes "lower word = ''available''"
  shows "word \<noteq> [] \<and> \<not> is_space (hd word)"
proof -
  from assms obtain c cs where w: "word = c # cs" and c: "lower_char c = CHR ''a''"
    by (cases word) (auto simp: lower_def)
  with space_not_letter_a [of c] show ?thesis by auto
qed

lemma available_at_match:
  assumes "available_at s [] ds"
  shows "match_available s = Some ds"
proof -
  from assms obtain ws word post where s: "s = ''('' @ ds @ ws @ word @ '')'' @ post"
    and ds: "ds \<noteq> []" "list_all is_digit ds" and ws: "ws \<noteq> []" "list_all is_space ws"
    and word: "lower word = ''available''"
    unfolding available_at_def by auto
  let ?r2 = "word @ '')'' @ post"
  let ?r1 = "ws @ ?r2"
  have "\<not> is_digit (hd ?r1)"
    using ws by (cases ws) (auto simp: space_not_digit)
  then have d1: "takeWhile is_digit (ds @ ?r1) = ds" "dropWhile is_digit (ds @ ?r1) = ?r1"
    using ds(2) by (simp_all add: takeWhile_run)
  have "\<not> is_space (hd ?r2)"
    using lower_available_head [OF word] by (cases word) auto
  then have d2: "takeWhile is_space ?r1 = ws" "dropWhile is_space ?r1 = ?r2"
    using ws(2) by (simp_all add: takeWhile_run)
  have "lower ?r2 = ''available)'' @ lower post"
    using word by (simp add: lower_append) (simp add: lower_def lower_char_paren)
  then have d3: "startswith (lower ?r2) ''available)''"
    unfolding startswith_iff by blast
  have "s = CHR ''('' # ds @ ?r1"
    by (simp add: s)
  then show ?thesis
    using d1 d2 d3 ds(1) ws(1) by (simp add: match_available_def Let_def)
qed

lemma match_available_at:
  assumes "match_available s = Some ds"
  shows "available_at s [] ds"
proof -
  from assms obtain c r where s: "s = c # r"
    by (cases s) (auto simp: match_available_def)
  define r1 where "r1 = dropWhile is_digit r"
  define ws where "ws = takeWhile is_space r1"
  define r2 where "r2 = dropWhile is_space r1"
  from assms have c: "c = CHR ''(''" and ds: "ds = takeWhile is_digit r" "ds \<noteq> []"
    and wsn: "ws \<noteq> []" and st: "startswith (lower r2) ''available)''"
    unfolding s match_available_def Let_def r1_def ws_def r2_def
    by (auto split: if_splits)
  have r: "r = ds @ ws @ r2"
    unfolding ds ws_def r2_def r1_def by simp
  from st obtain lpost where l: "lower r2 = ''available)'' @ lpost"
    unfolding startswith_iff by blast
  have "length (lower r2) = 10 + length lpost"
    by (simp add: l)
  then have len: "9 < length r2"
    by simp
  define word where "word = take 9 r2"
  define post where "post = drop (Suc 9) r2"
  have "drop 9 r2 = r2 ! 9 # post"
    unfolding post_def using len by (intro Cons_nth_drop_Suc [symmetric])
  then have r2: "r2 = word @ [r2 ! 9] @ post"
    unfolding word_def by (metis append_Cons append_Nil append_take_drop_id)
  have "lower word = take 9 (lower r2)"
    by (simp add: word_def lower_def take_map)
  then have w: "lower word = ''available''"
    by (simp add: l)
  have "lower_char (r2 ! 9) = lower r2 ! 9"
    using len by (simp add: lower_def)
  then have "lower_char (r2 ! 9) = CHR '')''"
    by (simp add: l)
  then have p: "r2 ! 9 = CHR '')''"
    by (simp add: lower_char_paren)
  have "s = [] @ ''('' @ ds @ ws @ word @ '')'' @ post"
    using s c r r2 p by simp
  moreover have "list_all is_digit ds"
    unfolding ds by (simp add: list_all_iff) (meson set_takeWhileD)
  moreover have "list_all is_space ws"
    unfolding ws_def by (simp add: list_all_iff) (meson set_takeWhileD)
  ultimately show ?thesis
    unfolding available_at_def using ds(2) wsn w by blast
qed

lemma match_available_iff: "match_available s = Some ds \<longleftrightarrow> available_at s [] ds"
  using available_at_match match_available_at by blast

lemma available_at_Nil_text: "\<not> available_at [] pre ds"
  by (simp add: available_at_def)

lemma available_at_Cons:
  "available_at (c # s) (c' # pre) ds \<longleftrightarrow> c = c' \<and> available_at s pre ds"
  by (auto simp: available_at_def)

text \<open>The search returns the count of the leftmost occurrence, and nothing when the
  pattern does not occur.\<close>

lemma search_available_None:
  "search_available s = None \<longleftrightarrow> (\<forall>pre ds. \<not> available_at s pre ds)"
proof (induction s)
  case Nil
  show ?case by (simp add: available_at_Nil_text)
next
  case (Cons c cs)
  show ?case
  proof (cases "match_available (c # cs)")
    case (Some ds0)
    then have "available_at (c # cs) [] ds0"
      by (simp add: match_available_iff)
    with Some show ?thesis by auto
  next
    case None
    have "(\<exists>pre ds. available_at (c # cs) pre ds) \<longleftrightarrow> (\<exists>pre ds. available_at cs pre ds)"
    proof
      assume "\<exists>pre ds. available_at (c # cs) pre ds"
      then obtain pre ds where a: "available_at (c # cs) pre ds" by blast
      with None have "pre \<noteq> []"
        using match_available_iff [of "c # cs" ds] by auto
      then obtain c' pre' where "pre = c' # pre'" by (cases pre) auto
      with a show "\<exists>pre ds. available_at cs pre ds"
        by (auto simp: available_at_Cons)
    next
      assume "\<exists>pre ds. available_at cs pre ds"
      then obtain pre ds where "available_at cs pre ds" by blast
      then have "available_at (c # cs) (c # pre) ds"
        by (simp add: available_at_Cons)
      then show "\<exists>pre ds. available_at (c # cs) pre ds" by blast
    qed
    then have "(\<forall>pre ds. \<not> available_at (c # cs) pre ds) \<longleftrightarrow>
               (\<forall>pre ds. \<not> available_at cs pre ds)"
      by blast
    with None Cons.IH show ?thesis by simp
  qed
qed

lemma search_available_leftmost:
  assumes "available_at s pre ds"
    and "\<forall>pre' ds'. available_at s pre' ds' \<longrightarrow> length pre \<le> length pre'"
  shows "search_available s = Some ds"
  using assms
proof (induction s arbitrary: pre)
  case Nil
  then show ?case by (simp add: available_at_Nil_text)
next
  case (Cons c cs)
  show ?case
  proof (cases "match_available (c # cs)")
    case (Some ds0)
    then have a0: "available_at (c # cs) [] ds0"
      by (simp add: match_available_iff)
    with Cons.prems(2) have "pre = []" by fastforce
    with Cons.prems(1) have "match_available (c # cs) = Some ds"
      by (simp add: match_available_iff)
    with Some show ?thesis by simp
  next
    case None
    with Cons.prems(1) have "pre \<noteq> []"
      using match_available_iff [of "c # cs" ds] by auto
    then obtain c' pre' where pre: "pre = c' # pre'" by (cases pre) auto
    with Cons.prems(1) have a: "available_at cs pre' ds"
      by (simp add: available_at_Cons)
    have "\<forall>p d. available_at cs p d \<longrightarrow> length pre' \<le> length p"
    proof (intro allI impI)
      fix p d
      assume "available_at cs p d"
      then have "available_at (c # cs) (c # p) d"
        by (simp add: available_at_Cons)
      with Cons.prems(2) show "length pre' \<le> length p"
        unfolding pre by fastforce
    qed
    with Cons.IH [OF a] None show ?thesis by simp
  qed
qed

lemma search_digits_first_run:
  assumes "first_run is_digit text run"
  shows "search_digits text = Some run"
  using first_run_search [OF assms]
  by (simp only: search_digits_def Let_def if_False)

lemma search_digits_none:
  "list_all (\<lambda>c. \<not> is_digit c) text \<Longrightarrow> search_digits text = None"
  by (simp add: search_digits_def no_run_search)

lemma contains_iff: "contains s p \<longleftrightarrow> (\<exists>pre post. s = pre @ p @ post)"
proof (induction s)
  case Nil
  show ?case by auto
next
  case (Cons c cs)
  show ?case
  proof
    assume "contains (c # cs) p"
    then consider "startswith (c # cs) p" | "contains cs p" by auto
    then show "\<exists>pre post. c # cs = pre @ p @ post"
    proof cases
      case 1
      then obtain post where "c # cs = [] @ p @ post"
        unfolding startswith_iff by auto
      then show ?thesis by blast
    next
      case 2
      with Cons.IH obtain pre post where "cs = pre @ p @ post" by blast
      then have "c # cs = (c # pre) @ p @ post" by simp
      then show ?thesis by blast
    qed
  next
    assume "\<exists>pre post. c # cs = pre @ p @ post"
    then obtain pre post where e: "c # cs = pre @ p @ post" by blast
    show "contains (c # cs) p"
    proof (cases pre)
      case Nil
      with e have "startswith (c # cs) p"
        unfolding startswith_iff by auto
      then show ?thesis by simp
    next
      case (Cons a pre')
      with e have "cs = pre' @ p @ post" by simp
      with Cons.IH show ?thesis by auto
    qed
  qed
qed

lemma contains_lower_iff: "contains (lower text) p \<longleftrightarrow> contains_nocase text p"
proof
  assume "contains (lower text) p"
  then obtain a b where "lower text = a @ p @ b"
    unfolding contains_iff by blast
  then have l: "map lower_char text = a @ p @ b"
    by (simp add: lower_def)
  define pre where "pre = take (length a) text"
  define w where "w = take (length p) (drop (length a) text)"
  define post where "post = drop (length p) (drop (length a) text)"
  have "text = pre @ w @ post"
    unfolding pre_def w_def post_def by (simp only: append_take_drop_id)
  moreover have "lower w = take (length p) (drop (length a) (map lower_char text))"
    by (simp add: w_def lower_def take_map drop_map)
  then have "lower w = p"
    by (simp add: l)
  ultimately show "contains_nocase text p"
    unfolding contains_nocase_def by blast
next
  assume "contains_nocase text p"
  then obtain pre w post where "text = pre @ w @ post" "lower w = p"
    unfolding contains_nocase_def by blast
  then have "lower text = lower pre @ p @ lower post"
    by (simp add: lower_append)
  then show "contains (lower text) p"
    unfolding contains_iff by blast
qed

lemma card_fields_stock:
  assumes "card_fields urljoin card_node base = Inr r"
  shows "map_of r ''stock'' = Some (VInt (stock_count (stock_text card_node)))"
    and "map_of r ''in_stock'' =
           Some (VBool (stock_flag (find_stock_elem card_node) (stock_text card_node)))"
  using assms
  by (auto simp: card_fields_def stock_text_def split: option.splits sum.splits)

lemma search_available_Some:
  assumes "search_available s = Some ds"
  shows "\<exists>pre. available_at s pre ds
           \<and> (\<forall>pre' ds'. available_at s pre' ds' \<longrightarrow> length pre \<le> length pre')"
  using assms
proof (induction s)
  case Nil
  then show ?case by simp
next
  case (Cons c cs)
  show ?case
  proof (cases "match_available (c # cs)")
    case (Some ds0)
    with Cons.prems have "available_at (c # cs) [] ds"
      by (simp add: match_available_iff)
    then show ?thesis by (intro exI [of _ "[]"]) simp
  next
    case None
    with Cons.prems have "search_available cs = Some ds" by simp
    from Cons.IH [OF this] obtain pre where a: "available_at cs pre ds"
      and m: "\<forall>pre' ds'. available_at cs pre' ds' \<longrightarrow> length pre \<le> length pre'"
      by blast
    have "length (c # pre) \<le> length p" if "available_at (c # cs) p d" for p d
    proof (cases p)
      case Nil
      with that None show ?thesis
        using match_available_iff [of "c # cs" d] by simp
    next
      case (Cons c' p')
      with that have "available_at cs p' d"
        by (simp add: available_at_Cons)
      with m Cons show ?thesis by auto
    qed
    moreover from a have "available_at (c # cs) (c # pre) ds"
      by (simp add: available_at_Cons)
    ultimately show ?thesis by blast
  qed
qed

lemma stock_examples:
  "stock_count ''In stock (19 available)'' = 19"
  "contains (lower ''In stock (19 available)'') ''available''"
  "stock_count ''Out of stock'' = 0"
  "\<not> contains (lower ''Out of stock'') ''available''"
  "\<not> contains (lower ''Out of stock'') ''in stock''"
  by code_simp+

text \<open>
  Claim C7. For every listing card from which a record is extracted, with the stock
  element found by the two searches of the code and its text stripped as the code strips
  it: \<^verbatim>\<open>stock\<close> is the count of the leftmost occurrence of \<^verbatim>\<open>(<N> available)\<close>, in any
  case, in that text; without such an occurrence it is the first run of digits of the
  text; without a digit it is \<open>0\<close>. \<^verbatim>\<open>in_stock\<close> is true exactly when the stock element
  exists and its class tokens contain \<^verbatim>\<open>instock\<close> or its text contains \<^verbatim>\<open>available\<close> or
  \<^verbatim>\<open>in stock\<close> in any case. The text \<^verbatim>\<open>In stock (19 available)\<close> gives the stock 19 and
  \<^verbatim>\<open>in_stock\<close> true; the text \<^verbatim>\<open>Out of stock\<close> on an element without the class token
  gives the stock 0 and \<^verbatim>\<open>in_stock\<close> false.
\<close>

theorem parse_book_card_stock:
  assumes "parse_book_card urljoin card_node base = Some r"
  shows "(\<forall>pre ds. available_at (stock_text card_node) pre ds
            \<and> (\<forall>pre' ds'. available_at (stock_text card_node) pre' ds'
                   \<longrightarrow> length pre \<le> length pre')
          \<longrightarrow> map_of r ''stock'' = Some (VInt (int (digits_value ds))))
       \<and> (\<forall>ds. (\<forall>pre' ds'. \<not> available_at (stock_text card_node) pre' ds')
            \<and> first_run is_digit (stock_text card_node) ds
          \<longrightarrow> map_of r ''stock'' = Some (VInt (int (digits_value ds))))
       \<and> ((\<forall>pre' ds'. \<not> available_at (stock_text card_node) pre' ds')
            \<and> list_all (\<lambda>c. \<not> is_digit c) (stock_text card_node)
          \<longrightarrow> map_of r ''stock'' = Some (VInt 0))
       \<and> map_of r ''in_stock'' = Some (VBool
            (\<exists>e. find_stock_elem card_node = Some e
               \<and> (''instock'' \<in> set (get_class e)
                  \<or> contains_nocase (stock_text card_node) ''available''
                  \<or> contains_nocase (stock_text card_node) ''in stock'')))
       \<and> (stock_text card_node = ''In stock (19 available)''
          \<longrightarrow> map_of r ''stock'' = Some (VInt 19) \<and> map_of r ''in_stock'' = Some (VBool True))
       \<and> (stock_text card_node = ''Out of stock''
            \<and> (\<forall>e. find_stock_elem card_node = Some e \<longrightarrow> ''instock'' \<notin> set (get_class e))
          \<longrightarrow> map_of r ''stock'' = Some (VInt 0) \<and> map_of r ''in_stock'' = Some (VBool False))"
proof -
  let ?t = "stock_text card_node"
  from assms have cf: "card_fields urljoin card_node base = Inr r"
    by (simp add: parse_book_card_Some)
  note st = card_fields_stock [OF cf]
  have flag: "stock_flag (find_stock_elem card_node) ?t =
      (\<exists>e. find_stock_elem card_node = Some e
         \<and> (''instock'' \<in> set (get_class e) \<or> contains_nocase ?t ''available''
            \<or> contains_nocase ?t ''in stock''))"
    by (cases "find_stock_elem card_node") (simp_all add: stock_flag_def contains_lower_iff)
  have p1: "map_of r ''stock'' = Some (VInt (int (digits_value ds)))"
    if "available_at ?t pre ds"
      "\<forall>pre' ds'. available_at ?t pre' ds' \<longrightarrow> length pre \<le> length pre'" for pre ds
    using search_available_leftmost [OF that] st(1) by (simp add: stock_count_def)
  have p2: "map_of r ''stock'' = Some (VInt (int (digits_value ds)))"
    if "\<forall>pre' ds'. \<not> available_at ?t pre' ds'" "first_run is_digit ?t ds" for ds
  proof -
    from that(1) have "search_available ?t = None"
      by (simp add: search_available_None)
    with search_digits_first_run [OF that(2)] st(1) show ?thesis
      by (simp add: stock_count_def)
  qed
  have p3: "map_of r ''stock'' = Some (VInt 0)"
    if "\<forall>pre' ds'. \<not> available_at ?t pre' ds'" "list_all (\<lambda>c. \<not> is_digit c) ?t"
  proof -
    from that(1) have "search_available ?t = None"
      by (simp add: search_available_None)
    with search_digits_none [OF that(2)] st(1) show ?thesis
      by (simp add: stock_count_def)
  qed
  have p4: "map_of r ''in_stock'' = Some (VBool
            (\<exists>e. find_stock_elem card_node = Some e
               \<and> (''instock'' \<in> set (get_class e) \<or> contains_nocase ?t ''available''
                  \<or> contains_nocase ?t ''in stock'')))"
    using st(2) flag by simp
  have p5: "map_of r ''stock'' = Some (VInt 19) \<and> map_of r ''in_stock'' = Some (VBool True)"
    if t: "?t = ''In stock (19 available)''"
  proof -
    have "find_stock_elem card_node \<noteq> None"
      using t by (auto simp: stock_text_def elem_text_def split: option.splits)
    then have "stock_flag (find_stock_elem card_node) ''In stock (19 available)''"
      by (auto simp: stock_flag_def stock_examples)
    with st t show ?thesis
      by (simp add: stock_examples)
  qed
  have p6: "map_of r ''stock'' = Some (VInt 0) \<and> map_of r ''in_stock'' = Some (VBool False)"
    if t: "?t = ''Out of stock''"
      and c: "\<forall>e. find_stock_elem card_node = Some e \<longrightarrow> ''instock'' \<notin> set (get_class e)"
  proof -
    have "\<not> stock_flag (find_stock_elem card_node) ''Out of stock''"
      using c by (cases "find_stock_elem card_node") (simp_all add: stock_flag_def stock_examples)
    with st t show ?thesis
      by (simp add: stock_examples)
  qed
  from p1 p2 p3 p4 p5 p6 show ?thesis
    by blast
qed

lemma stock_card_parse:
  "parse_book_card std_urljoin (stock_card cls t) base =
     Some [(''title'', VStr ''A Light in the Attic''), (''price'', VFloat (5177 / 100)),
           (''rating'', VInt 3),
           (''stock'', VInt (stock_count (stock_text (stock_card cls t)))),
           (''in_stock'', VBool (stock_flag (find_stock_elem (stock_card cls t))
                                   (stock_text (stock_card cls t)))),
           (''url'', VStr (py_urljoin base ''catalogue/a_1/index.html''))]"
proof -
  have "normalize_href ''a_1/index.html'' = ''catalogue/a_1/index.html''"
    by (simp add: normalize_href_def startswith_def)
  then show ?thesis
    unfolding parse_book_card_def stock_card_def listing_card_fields price_51_77 stock_text_def
    by (simp add: std_urljoin_def)
qed

lemma stock_card_elem:
  "find_stock_elem (stock_card [''instock'', ''availability''] t) =
     Some (Tag ''p'' (Some [''instock'', ''availability'']) [] [Text t])"
  "find_stock_elem (stock_card [''availability''] t) =
     Some (Tag ''p'' (Some [''availability'']) [] [Text t])"
  by (simp_all add: stock_card_def listing_card_stock_elem)

lemma witness_texts:
  "strip ''  In stock (19 available)  '' = ''In stock (19 available)''"
  "search_available ''In stock (19 available)'' = Some ''19''"
  "digits_value ''19'' = 19"
  "strip ''Only 12 left'' = ''Only 12 left''"
  "search_available ''Only 12 left'' = None"
  "digits_value ''12'' = 12"
  "\<not> contains (lower ''Only 12 left'') ''available''"
  "\<not> contains (lower ''Only 12 left'') ''in stock''"
  "strip ''Out of stock'' = ''Out of stock''"
  "search_available ''Out of stock'' = None"
  by code_simp+

theorem parse_book_card_stock_witness:
  "(\<exists>r. parse_book_card std_urljoin
          (stock_card [''instock'', ''availability''] ''  In stock (19 available)  '') [] = Some r
        \<and> map_of r ''stock'' = Some (VInt 19) \<and> map_of r ''in_stock'' = Some (VBool True))
   \<and> (\<exists>r. parse_book_card std_urljoin (stock_card [''availability''] ''Only 12 left'') [] = Some r
        \<and> map_of r ''stock'' = Some (VInt 12) \<and> map_of r ''in_stock'' = Some (VBool False))
   \<and> (\<exists>r. parse_book_card std_urljoin (stock_card [''availability''] ''Out of stock'') [] = Some r
        \<and> map_of r ''stock'' = Some (VInt 0) \<and> map_of r ''in_stock'' = Some (VBool False))"
proof -
  let ?c1 = "stock_card [''instock'', ''availability''] ''  In stock (19 available)  ''"
  let ?c2 = "stock_card [''availability''] ''Only 12 left''"
  let ?c3 = "stock_card [''availability''] ''Out of stock''"
  obtain r1 where r1: "parse_book_card std_urljoin ?c1 [] = Some r1"
    by (simp add: stock_card_parse)
  obtain r2 where r2: "parse_book_card std_urljoin ?c2 [] = Some r2"
    by (simp add: stock_card_parse)
  obtain r3 where r3: "parse_book_card std_urljoin ?c3 [] = Some r3"
    by (simp add: stock_card_parse)
  have t1: "stock_text ?c1 = ''In stock (19 available)''"
    by (simp add: stock_text_def stock_card_elem elem_text_def witness_texts)
  have t2: "stock_text ?c2 = ''Only 12 left''"
    by (simp add: stock_text_def stock_card_elem elem_text_def witness_texts)
  have t3: "stock_text ?c3 = ''Out of stock''"
    by (simp add: stock_text_def stock_card_elem elem_text_def witness_texts)
  \<comment> \<open>the leftmost occurrence of the pattern\<close>
  obtain pre where pre: "available_at (stock_text ?c1) pre ''19''"
    "\<forall>pre' ds'. available_at (stock_text ?c1) pre' ds' \<longrightarrow> length pre \<le> length pre'"
    using search_available_Some [OF witness_texts(2)]
    unfolding t1 by blast
  have "map_of r1 ''stock'' = Some (VInt (int (digits_value ''19'')))"
    using parse_book_card_stock [OF r1] pre by blast
  moreover have "map_of r1 ''in_stock'' = Some (VBool True)"
    using parse_book_card_stock [OF r1] t1 by blast
  ultimately
  have a: "map_of r1 ''stock'' = Some (VInt 19) \<and> map_of r1 ''in_stock'' = Some (VBool True)"
    by (simp add: witness_texts)
  \<comment> \<open>no occurrence, a run of digits\<close>
  have none2: "\<forall>pre' ds'. \<not> available_at (stock_text ?c2) pre' ds'"
    unfolding t2 using witness_texts(5) search_available_None by blast
  have "''Only 12 left'' = ''Only '' @ ''12'' @ '' left''"
    by simp
  then have run2: "first_run is_digit (stock_text ?c2) ''12''"
    unfolding t2 first_run_def
    by (intro exI [of _ "''Only ''"] exI [of _ "'' left''"]) (simp add: is_digit_def)
  have nc2: "\<not> contains_nocase (stock_text ?c2) ''available''"
    "\<not> contains_nocase (stock_text ?c2) ''in stock''"
    unfolding t2 by (simp_all add: contains_lower_iff [symmetric] witness_texts)
  have flag2: "(\<exists>e. find_stock_elem ?c2 = Some e
               \<and> (''instock'' \<in> set (get_class e)
                  \<or> contains_nocase (stock_text ?c2) ''available''
                  \<or> contains_nocase (stock_text ?c2) ''in stock'')) = False"
    using nc2 by (simp add: stock_card_elem)
  have "map_of r2 ''stock'' = Some (VInt (int (digits_value ''12'')))"
    using parse_book_card_stock [OF r2] none2 run2 by blast
  moreover have "map_of r2 ''in_stock'' = Some (VBool False)"
    using parse_book_card_stock [OF r2] unfolding flag2 by blast
  ultimately
  have b: "map_of r2 ''stock'' = Some (VInt 12) \<and> map_of r2 ''in_stock'' = Some (VBool False)"
    by (simp add: witness_texts)
  \<comment> \<open>the second example of the claim\<close>
  have cls3: "\<forall>e. find_stock_elem ?c3 = Some e \<longrightarrow> ''instock'' \<notin> set (get_class e)"
    by (simp add: stock_card_elem)
  have c: "map_of r3 ''stock'' = Some (VInt 0) \<and> map_of r3 ''in_stock'' = Some (VBool False)"
    using parse_book_card_stock [OF r3] t3 cls3 by blast
  from r1 r2 r3 a b c show ?thesis
    by blast
qed

subsection \<open>The merge of a detail record\<close>


lemma map_of_rev_distinct:
  "distinct (map fst xs) \<Longrightarrow> map_of (rev xs) = map_of xs"
proof (induction xs)
  case Nil
  show ?case by simp
next
  case (Cons x xs)
  then have "fst x \<notin> dom (map_of xs)"
    by (simp add: dom_map_of_conv_image_fst)
  then have "map_of xs (fst x) = None"
    by blast
  with Cons show ?case
    by (cases x) (auto simp: map_add_def fun_eq_iff split: option.splits)
qed

lemma map_of_dict_update_rev:
  "map_of (dict_update d other) = map_of d ++ map_of (rev other)"
proof (induction other arbitrary: d)
  case Nil
  show ?case by (simp add: dict_update_def)
next
  case (Cons x other)
  obtain k v where x: "x = (k, v)" by (cases x)
  have "map_of (dict_update d (x # other)) = map_of (dict_update (AList.update k v d) other)"
    by (simp add: dict_update_def x)
  also have "\<dots> = (map_of d)(k \<mapsto> v) ++ map_of (rev other)"
    by (simp only: Cons.IH update_conv')
  also have "\<dots> = map_of d ++ map_of (rev (x # other))"
    by (auto simp: x map_add_def fun_eq_iff split: option.splits)
  finally show ?case .
qed

lemma map_of_dict_update:
  "distinct (map fst other) \<Longrightarrow> map_of (dict_update d other) = map_of d ++ map_of other"
  by (simp add: map_of_dict_update_rev map_of_rev_distinct)

lemma dict_update_Nil [simp]: "dict_update d [] = d"
  by (simp add: dict_update_def)

text \<open>The keys of a detail record are pairwise distinct, and its \<^verbatim>\<open>url\<close> is the address
  that was fetched.\<close>

lemma table_row_distinct:
  "table_row row d = Inr d' \<Longrightarrow> distinct (map fst d) \<Longrightarrow> distinct (map fst d')"
  by (auto simp: table_row_def Let_def distinct_update split: option.splits if_splits sum.splits)

lemma table_rows_distinct:
  "table_rows rows d = Inr d' \<Longrightarrow> distinct (map fst d) \<Longrightarrow> distinct (map fst d')"
proof (induction rows arbitrary: d)
  case Nil
  then show ?case by simp
next
  case (Cons row rows)
  then show ?case
    by (auto split: sum.splits dest: table_row_distinct)
qed

lemma detail_table_distinct:
  "detail_table soup d = Inr d' \<Longrightarrow> distinct (map fst d) \<Longrightarrow> distinct (map fst d')"
  by (auto simp: detail_table_def split: option.splits dest: table_rows_distinct)

lemma detail_category_distinct:
  "distinct (map fst d) \<Longrightarrow> distinct (map fst (detail_category soup d))"
  by (auto simp: detail_category_def Let_def distinct_update split: option.splits)

lemma detail_image_distinct:
  "detail_image urljoin soup cfg d = Inr d' \<Longrightarrow> distinct (map fst d)
     \<Longrightarrow> distinct (map fst d')"
  by (auto simp: detail_image_def Let_def distinct_update split: option.splits if_splits sum.splits)

lemma detail_fields_distinct:
  assumes "detail_fields urljoin soup url cfg = Inr d"
  shows "distinct (map fst d)"
proof -
  have step: "distinct (map fst (AList.update ''url'' (VStr url) i))"
    if "detail_table soup d0 = Inr t" "distinct (map fst d0)"
      "detail_image urljoin soup cfg (detail_category soup t) = Inr i" for d0 t i
    using that
    by (blast intro: distinct_update detail_category_distinct detail_image_distinct
        detail_table_distinct)
  from assms show ?thesis
    by (auto simp: detail_fields_def split: option.splits sum.splits intro: step)
qed

lemma detail_fields_url:
  assumes "detail_fields urljoin soup url cfg = Inr d"
  shows "map_of d ''url'' = Some (VStr url)"
  using assms
  by (auto simp: detail_fields_def update_conv' split: option.splits sum.splits)

lemma scrape_book_detail_cases:
  "scrape_book_detail urljoin u cfg net = []
   \<or> (\<exists>r soup. detail_fields urljoin soup (detail_address u cfg) cfg
                  = Inr (scrape_book_detail urljoin u cfg net))"
  by (auto simp: scrape_book_detail_def parse_book_detail_page_def
      split: option.splits prod.splits sum.splits)

lemma scrape_book_detail_distinct:
  "distinct (map fst (scrape_book_detail urljoin u cfg net))"
  using scrape_book_detail_cases [of urljoin u cfg net]
  by (auto dest: detail_fields_distinct)

lemma detail_address_absolute: "startswith u ''http'' \<Longrightarrow> detail_address u cfg = u"
  by (simp add: detail_address_def)

lemma scrape_book_detail_url:
  assumes "startswith u ''http''" and "scrape_book_detail urljoin u cfg net \<noteq> []"
  shows "map_of (scrape_book_detail urljoin u cfg net) ''url'' = Some (VStr u)"
  using scrape_book_detail_cases [of urljoin u cfg net] assms
  by (auto simp: detail_address_absolute dest: detail_fields_url)

lemma detail_site_record:
  "scrape_book_detail std_urljoin ''https://books.toscrape.com/catalogue/a_1/index.html''
     CUSTOM_CONFIG detail_site =
   [(''title'', VStr ''A Light in the Attic''), (''price'', VFloat (5177 / 100)),
    (''stock'', VInt 22), (''in_stock'', VBool True), (''rating'', VInt 3),
    (''upc'', VStr ''a897fe39b1053632''), (''tax'', VFloat (1 / 2)),
    (''url'', VStr ''https://books.toscrape.com/catalogue/a_1/index.html'')]"
  by code_simp

lemma dict_update_detail_url:
  assumes "map_of book ''url'' = Some (VStr u)" and "startswith u ''http''"
  shows "map_of (dict_update book (scrape_book_detail urljoin u cfg net)) ''url''
           = map_of book ''url''"
proof (cases "scrape_book_detail urljoin u cfg net = []")
  case True
  then show ?thesis by simp
next
  case False
  from scrape_book_detail_url [OF assms(2) this] assms(1) show ?thesis
    by (simp add: map_of_dict_update scrape_book_detail_distinct)
qed

lemma merge_completed_record:
  assumes "map_of book_dict url = Some book"
  shows "map_of (merge_completed book_dict (url, Inr info)) url = Some (dict_update book info)"
  using assms by (simp add: merge_completed_def update_conv')

text \<open>
  Claim C5. Let a base record with an absolute address \<open>u\<close> (one that starts with
  \<^verbatim>\<open>http\<close>, as the addresses of the records are) be stored under \<open>u\<close>, and let the
  task for \<open>u\<close> return the detail record \<open>scrape_book_detail urljoin u cfg net\<close>. After
  the round of the merge loop for that task the record stored under \<open>u\<close> is the base
  record updated with the detail record: every field of the detail record has the detail
  record's value, every field the detail record lacks is as in the base record (present
  with the same value, or absent), and the \<^verbatim>\<open>url\<close> is the one of the base record.
\<close>

theorem enrichment_merge:
  assumes "map_of book ''url'' = Some (VStr u)"
    and "startswith u ''http''"
    and "map_of book_dict (VStr u) = Some book"
  shows "run_task urljoin cfg (Serves net) (VStr u) = Inr (scrape_book_detail urljoin u cfg net)
       \<and> map_of (merge_completed book_dict
              (VStr u, run_task urljoin cfg (Serves net) (VStr u))) (VStr u)
           = Some (dict_update book (scrape_book_detail urljoin u cfg net))
       \<and> (\<forall>k v. map_of (scrape_book_detail urljoin u cfg net) k = Some v
             \<longrightarrow> map_of (dict_update book (scrape_book_detail urljoin u cfg net)) k = Some v)
       \<and> (\<forall>k. map_of (scrape_book_detail urljoin u cfg net) k = None
             \<longrightarrow> map_of (dict_update book (scrape_book_detail urljoin u cfg net)) k
                 = map_of book k)
       \<and> map_of (dict_update book (scrape_book_detail urljoin u cfg net)) ''url''
           = map_of book ''url''"
proof -
  let ?info = "scrape_book_detail urljoin u cfg net"
  have task: "run_task urljoin cfg (Serves net) (VStr u) = Inr ?info"
    by (simp add: run_task_def)
  have m: "map_of (dict_update book ?info) = map_of book ++ map_of ?info"
    by (simp add: map_of_dict_update scrape_book_detail_distinct)
  have stored: "map_of (merge_completed book_dict
              (VStr u, run_task urljoin cfg (Serves net) (VStr u))) (VStr u)
           = Some (dict_update book ?info)"
    unfolding task using assms(3) by (rule merge_completed_record)
  have present: "map_of (dict_update book ?info) k = Some v" if "map_of ?info k = Some v" for k v
    using that by (simp add: m)
  have absent: "map_of (dict_update book ?info) k = map_of book k" if "map_of ?info k = None" for k
    using that by (simp add: m map_add_def)
  have url: "map_of (dict_update book ?info) ''url'' = map_of book ''url''"
    using assms(1,2) by (rule dict_update_detail_url)
  from task stored present absent url show ?thesis
    by blast
qed

lemma base_record_merged:
  "dict_update base_record
     (scrape_book_detail std_urljoin ''https://books.toscrape.com/catalogue/a_1/index.html''
        CUSTOM_CONFIG detail_site) =
   [(''title'', VStr ''A Light in the Attic''), (''price'', VFloat (5177 / 100)),
    (''rating'', VInt 3), (''stock'', VInt 22), (''in_stock'', VBool True),
    (''url'', VStr ''https://books.toscrape.com/catalogue/a_1/index.html''),
    (''tax'', VFloat (1 / 2)), (''upc'', VStr ''a897fe39b1053632'')]"
  unfolding detail_site_record by code_simp

theorem enrichment_merge_witness:
  "map_of base_record ''url'' = Some (VStr ''https://books.toscrape.com/catalogue/a_1/index.html'')
   \<and> startswith ''https://books.toscrape.com/catalogue/a_1/index.html'' ''http''
   \<and> map_of (merge_completed
          [(VStr ''https://books.toscrape.com/catalogue/a_1/index.html'', base_record)]
          (VStr ''https://books.toscrape.com/catalogue/a_1/index.html'',
           run_task std_urljoin CUSTOM_CONFIG (Serves detail_site)
             (VStr ''https://books.toscrape.com/catalogue/a_1/index.html'')))
        (VStr ''https://books.toscrape.com/catalogue/a_1/index.html'')
      = Some [(''title'', VStr ''A Light in the Attic''), (''price'', VFloat (5177 / 100)),
          (''rating'', VInt 3), (''stock'', VInt 22), (''in_stock'', VBool True),
          (''url'', VStr ''https://books.toscrape.com/catalogue/a_1/index.html''),
          (''tax'', VFloat (1 / 2)), (''upc'', VStr ''a897fe39b1053632'')]
   \<and> map_of base_record ''tax'' = Some (VFloat 1)
   \<and> map_of base_record ''category'' = None"
proof -
  let ?u = "''https://books.toscrape.com/catalogue/a_1/index.html''"
  have h1: "map_of base_record ''url'' = Some (VStr ?u)"
    by (simp add: base_record_def)
  have h2: "startswith ?u ''http''"
    by (simp add: startswith_def)
  have h3: "map_of [(VStr ?u, base_record)] (VStr ?u) = Some base_record"
    by simp
  from enrichment_merge [OF h1 h2 h3, of std_urljoin CUSTOM_CONFIG detail_site]
  have "map_of (merge_completed [(VStr ?u, base_record)]
          (VStr ?u, run_task std_urljoin CUSTOM_CONFIG (Serves detail_site) (VStr ?u)))
        (VStr ?u)
      = Some (dict_update base_record
          (scrape_book_detail std_urljoin ?u CUSTOM_CONFIG detail_site))"
    by blast
  then have h4: "map_of (merge_completed [(VStr ?u, base_record)]
          (VStr ?u, run_task std_urljoin CUSTOM_CONFIG (Serves detail_site) (VStr ?u)))
        (VStr ?u)
      = Some [(''title'', VStr ''A Light in the Attic''), (''price'', VFloat (5177 / 100)),
          (''rating'', VInt 3), (''stock'', VInt 22), (''in_stock'', VBool True),
          (''url'', VStr ?u), (''tax'', VFloat (1 / 2)), (''upc'', VStr ''a897fe39b1053632'')]"
    by (simp only: base_record_merged)
  have h5: "map_of base_record ''tax'' = Some (VFloat 1)"
    "map_of base_record ''category'' = None"
    by (simp_all add: base_record_def)
  from h1 h2 h4 h5 show ?thesis
    by blast
qed

subsection \<open>The detail pass in closed form\<close>


lemma update_fresh: "k \<notin> fst ` set al \<Longrightarrow> AList.update k v al = al @ [(k, v)]"
  by (induction al) auto

lemma urls_of_length: "urls_of books = Inr us \<Longrightarrow> length us = length books"
  by (induction books arbitrary: us) (auto split: option.splits sum.splits)

lemma urls_of_nth:
  "urls_of books = Inr us \<Longrightarrow> i < length books \<Longrightarrow> map_of (books ! i) ''url'' = Some (us ! i)"
proof (induction books arbitrary: us i)
  case Nil
  then show ?case by simp
next
  case (Cons b books)
  then show ?case
    by (cases i) (auto split: option.splits sum.splits)
qed

lemma index_by_url_zip:
  "urls_of books = Inr us \<Longrightarrow> distinct (map fst bd @ us)
     \<Longrightarrow> index_by_url books bd = Inr (bd @ zip us books)"
proof (induction books arbitrary: us bd)
  case Nil
  then show ?case by simp
next
  case (Cons b books)
  from Cons.prems(1) obtain u us' where u: "map_of b ''url'' = Some u"
    and us': "urls_of books = Inr us'" and us: "us = u # us'"
    by (auto split: option.splits sum.splits)
  from Cons.prems(2) have fresh: "u \<notin> fst ` set bd"
    by (auto simp: us)
  have d: "distinct (map fst (bd @ [(u, b)]) @ us')"
    using Cons.prems(2) by (auto simp: us)
  show ?case
    using Cons.IH [OF us' d] by (simp add: u us update_fresh [OF fresh])
qed

lemma update_zip_nth:
  assumes "length us = length vs" "distinct us" "j < length us"
  shows "AList.update (us ! j) v (zip us vs) = zip us (vs[j := v])"
  using assms
proof (induction us vs arbitrary: j rule: list_induct2)
  case Nil
  then show ?case by simp
next
  case (Cons u us w vs)
  show ?case
  proof (cases j)
    case 0
    then show ?thesis by simp
  next
    case (Suc j')
    with Cons.prems have "us ! j' \<noteq> u"
      by auto
    with Cons Suc show ?thesis by auto
  qed
qed

text \<open>One round of the merge loop on a dictionary with distinct keys changes the entry
  of the completed task and no other.\<close>

lemma merge_completed_zip:
  assumes "length us = length vs" "distinct us" "j < length us"
  shows "merge_completed (zip us vs) (us ! j, result) =
           zip us (vs[j := (case result of Inl e \<Rightarrow> vs ! j
                            | Inr info \<Rightarrow> dict_update (vs ! j) info)])"
proof -
  have look: "map_of (zip us vs) (us ! j) = Some (vs ! j)"
    using assms by (intro map_of_zip_nth) simp_all
  show ?thesis
  proof (cases result)
    case (Inl e)
    then show ?thesis by (simp add: merge_completed_def)
  next
    case (Inr info)
    show ?thesis
    proof (cases "info = []")
      case True
      with Inr show ?thesis by (simp add: merge_completed_def look)
    next
      case False
      with Inr show ?thesis
        by (simp add: merge_completed_def look update_zip_nth [OF assms])
    qed
  qed
qed

lemma fold_merge_completed:
  assumes len: "length us = length books" and dist: "distinct us"
    and ds: "distinct ds" "set ds \<subseteq> {0 ..< length books}"
  shows "fold (\<lambda>completed bd. merge_completed bd completed)
           (map (\<lambda>i. (us ! i, run_task urljoin cfg (workers i) (us ! i))) ds)
           (zip us books) =
         zip us (map (\<lambda>i. if i \<in> set ds
                            then merged_record urljoin cfg (workers i) (books ! i) (us ! i)
                            else books ! i) [0 ..< length books])"
  using ds
proof (induction ds rule: rev_induct)
  case Nil
  show ?case by (simp add: map_nth)
next
  case (snoc j ds)
  let ?m = "\<lambda>i. merged_record urljoin cfg (workers i) (books ! i) (us ! i)"
  let ?vs = "map (\<lambda>i. if i \<in> set ds then ?m i else books ! i) [0 ..< length books]"
  from snoc.prems have j: "j < length books" "j \<notin> set ds"
    and ds': "distinct ds" "set ds \<subseteq> {0 ..< length books}"
    by auto
  have lv: "length us = length ?vs"
    by (simp add: len)
  have vj: "?vs ! j = books ! j"
    using j by simp
  have "fold (\<lambda>completed bd. merge_completed bd completed)
           (map (\<lambda>i. (us ! i, run_task urljoin cfg (workers i) (us ! i))) (ds @ [j]))
           (zip us books) =
        merge_completed (zip us ?vs) (us ! j, run_task urljoin cfg (workers j) (us ! j))"
    by (simp add: snoc.IH [OF ds'])
  also have "\<dots> = zip us (?vs[j := ?m j])"
  proof -
    have "(case run_task urljoin cfg (workers j) (us ! j) of
             Inl e \<Rightarrow> ?vs ! j | Inr info \<Rightarrow> dict_update (?vs ! j) info) = ?m j"
      using vj by (simp add: merged_record_def split: sum.splits)
    moreover have "j < length us"
      using j(1) by (simp add: len)
    ultimately show ?thesis
      by (simp only: merge_completed_zip [OF lv dist])
  qed
  also have "?vs[j := ?m j] =
      map (\<lambda>i. if i \<in> set (ds @ [j]) then ?m i else books ! i) [0 ..< length books]"
    using j by (intro nth_equalityI) (auto simp: nth_list_update)
  finally show ?case .
qed

lemma as_completed_all:
  "set order \<subseteq> {0 ..< length futures} \<Longrightarrow>
   as_completed order futures = map (\<lambda>i. futures ! i) order"
proof -
  assume "set order \<subseteq> {0 ..< length futures}"
  then have "filter (\<lambda>i. i < length futures) order = order"
    by (intro filter_True) auto
  then show ?thesis
    by (simp add: as_completed_def)
qed

text \<open>The detail pass in closed form: whatever the order of completion, record \<open>i\<close> of
  the output is base record \<open>i\<close> merged with the result of task \<open>i\<close>.\<close>

lemma detail_pass_closed_form:
  assumes urls: "urls_of all_books = Inr detail_urls"
    and dist: "distinct detail_urls"
    and order: "distinct order" "set order = {0 ..< length all_books}"
  shows "detail_pass urljoin cfg workers order all_books detail_urls =
           Inr (map (\<lambda>i. merged_record urljoin cfg (workers i) (all_books ! i) (detail_urls ! i))
                  [0 ..< length all_books])"
proof -
  let ?n = "length all_books"
  let ?m = "\<lambda>i. merged_record urljoin cfg (workers i) (all_books ! i) (detail_urls ! i)"
  have len: "length detail_urls = ?n"
    using urls by (rule urls_of_length)
  have idx: "index_by_url all_books [] = Inr (zip detail_urls all_books)"
    using index_by_url_zip [OF urls, of "[]"] dist by simp
  let ?futures = "map (\<lambda>i. (detail_urls ! i,
                     run_task urljoin cfg (workers i) (detail_urls ! i))) [0 ..< length detail_urls]"
  have "as_completed order ?futures = map (\<lambda>i. ?futures ! i) order"
    using order(2) by (intro as_completed_all) (simp add: len)
  also have "\<dots> = map (\<lambda>i. (detail_urls ! i,
                     run_task urljoin cfg (workers i) (detail_urls ! i))) order"
    using order(2) by (intro map_cong) (auto simp: len)
  finally have comp: "as_completed order ?futures =
      map (\<lambda>i. (detail_urls ! i, run_task urljoin cfg (workers i) (detail_urls ! i))) order" .
  have "fold (\<lambda>completed bd. merge_completed bd completed) (as_completed order ?futures)
          (zip detail_urls all_books) =
        zip detail_urls (map (\<lambda>i. if i \<in> set order then ?m i else all_books ! i) [0 ..< ?n])"
    unfolding comp using order by (intro fold_merge_completed [OF len dist]) simp_all
  also have "map (\<lambda>i. if i \<in> set order then ?m i else all_books ! i) [0 ..< ?n] = map ?m [0 ..< ?n]"
    using order(2) by (intro map_cong) auto
  finally show ?thesis
    by (simp add: detail_pass_def idx len)
qed

subsection \<open>The records of the detail pass\<close>


lemma merged_record_url:
  assumes "map_of book ''url'' = Some url" and "absolute_urls [url]"
  shows "record_url (merged_record urljoin cfg w book url) = record_url book"
proof -
  from assms(2) obtain u where u: "url = VStr u" "startswith u ''http''"
    by (cases url) (auto simp: absolute_urls_def)
  show ?thesis
  proof (cases w)
    case Crashes
    then show ?thesis by (simp add: merged_record_def run_task_def)
  next
    case (Serves net)
    then show ?thesis
      using dict_update_detail_url [of book u urljoin cfg net] assms(1) u
      by (simp add: merged_record_def run_task_def record_url_def)
  qed
qed

lemma merged_record_failed:
  "task_failed (run_task urljoin cfg w url) \<Longrightarrow> merged_record urljoin cfg w book url = book"
  by (auto simp: task_failed_def merged_record_def split: sum.splits)

lemma absolute_urls_nth:
  "absolute_urls us \<Longrightarrow> i < length us \<Longrightarrow> absolute_urls [us ! i]"
  by (simp add: absolute_urls_def list_all_length)

lemma detail_pass_urls:
  assumes urls: "urls_of all_books = Inr detail_urls" and ab: "absolute_urls detail_urls"
  shows "map record_url
           (map (\<lambda>i. merged_record urljoin cfg (workers i) (all_books ! i) (detail_urls ! i))
              [0 ..< length all_books]) = map record_url all_books"
proof (rule nth_equalityI)
  show "length (map record_url
           (map (\<lambda>i. merged_record urljoin cfg (workers i) (all_books ! i) (detail_urls ! i))
              [0 ..< length all_books])) = length (map record_url all_books)"
    by simp
next
  fix i
  assume "i < length (map record_url
           (map (\<lambda>i. merged_record urljoin cfg (workers i) (all_books ! i) (detail_urls ! i))
              [0 ..< length all_books]))"
  then have i: "i < length all_books" by simp
  then have "i < length detail_urls"
    using urls_of_length [OF urls] by simp
  from merged_record_url [OF urls_of_nth [OF urls i] absolute_urls_nth [OF ab this]] i
  show "map record_url
           (map (\<lambda>i. merged_record urljoin cfg (workers i) (all_books ! i) (detail_urls ! i))
              [0 ..< length all_books]) ! i = map record_url all_books ! i"
    by simp
qed

lemma urls_of_record_url:
  "urls_of books = Inr us \<Longrightarrow> map record_url books = map Some us"
  by (induction books arbitrary: us) (auto simp: record_url_def split: option.splits sum.splits)

text \<open>
  Claim C4. Let the base records have pairwise distinct addresses, each absolute (a string
  that starts with \<^verbatim>\<open>http\<close>), and let the futures complete in any order. Then the detail
  pass returns a list and raises nothing, whatever tasks fail; the list has one record for
  each base record, the set of its \<^verbatim>\<open>url\<close> values is the set of the base records'
  \<^verbatim>\<open>url\<close> values, and this set has as many elements as there are base records; a record
  whose task failed (raised, or returned the empty record) is the base record, unchanged;
  and every record is its base record merged with the result of its own task, so that no
  task has an effect on the record of another.
\<close>

theorem detail_pass_keeps_records:
  assumes "urls_of all_books = Inr detail_urls"
    and "distinct detail_urls"
    and "absolute_urls detail_urls"
    and "distinct order" and "set order = {0 ..< length all_books}"
  shows "\<exists>out. detail_pass urljoin cfg workers order all_books detail_urls = Inr out
       \<and> length out = length all_books
       \<and> set (map record_url out) = set (map record_url all_books)
       \<and> card (set (map record_url out)) = length all_books
       \<and> (\<forall>i < length all_books.
             task_failed (run_task urljoin cfg (workers i) (detail_urls ! i))
             \<longrightarrow> out ! i = all_books ! i)
       \<and> (\<forall>i < length all_books.
             out ! i = merged_record urljoin cfg (workers i) (all_books ! i) (detail_urls ! i))"
proof -
  let ?out = "map (\<lambda>i. merged_record urljoin cfg (workers i) (all_books ! i) (detail_urls ! i))
                [0 ..< length all_books]"
  have r: "detail_pass urljoin cfg workers order all_books detail_urls = Inr ?out"
    using assms(1,2,4,5) by (rule detail_pass_closed_form)
  have u: "map record_url ?out = map record_url all_books"
    using assms(1,3) by (rule detail_pass_urls)
  have "distinct (map record_url all_books)"
    using assms(2) by (simp add: urls_of_record_url [OF assms(1)] distinct_map)
  then have "card (set (map record_url all_books)) = length (map record_url all_books)"
    by (rule distinct_card)
  then have c: "card (set (map record_url ?out)) = length all_books"
    unfolding u by simp
  have f: "?out ! i = all_books ! i"
    if "i < length all_books" "task_failed (run_task urljoin cfg (workers i) (detail_urls ! i))"
    for i
    using that by (simp add: merged_record_failed)
  have "length ?out = length all_books"
    by simp
  with r u c f show ?thesis
    by (intro exI [of _ ?out]) (simp only: u, simp)
qed

lemma example_merged:
  "merged_record std_urljoin CUSTOM_CONFIG (example_workers 0) base_record
     (VStr ''https://books.toscrape.com/catalogue/a_1/index.html'') =
   [(''title'', VStr ''A Light in the Attic''), (''price'', VFloat (5177 / 100)),
    (''rating'', VInt 3), (''stock'', VInt 22), (''in_stock'', VBool True),
    (''url'', VStr ''https://books.toscrape.com/catalogue/a_1/index.html''),
    (''tax'', VFloat (1 / 2)), (''upc'', VStr ''a897fe39b1053632'')]"
  by code_simp

theorem detail_pass_keeps_records_witness:
  "detail_pass std_urljoin CUSTOM_CONFIG example_workers [1, 0] [base_record, second_record]
     [VStr ''https://books.toscrape.com/catalogue/a_1/index.html'',
      VStr ''https://books.toscrape.com/catalogue/b_2/index.html''] =
   Inr [[(''title'', VStr ''A Light in the Attic''), (''price'', VFloat (5177 / 100)),
         (''rating'', VInt 3), (''stock'', VInt 22), (''in_stock'', VBool True),
         (''url'', VStr ''https://books.toscrape.com/catalogue/a_1/index.html''),
         (''tax'', VFloat (1 / 2)), (''upc'', VStr ''a897fe39b1053632'')],
        second_record]
   \<and> task_failed (run_task std_urljoin CUSTOM_CONFIG (example_workers 1)
         (VStr ''https://books.toscrape.com/catalogue/b_2/index.html''))"
proof -
  let ?a = "VStr ''https://books.toscrape.com/catalogue/a_1/index.html''"
  let ?b = "VStr ''https://books.toscrape.com/catalogue/b_2/index.html''"
  have h1: "urls_of [base_record, second_record] = Inr [?a, ?b]"
    by (simp add: base_record_def second_record_def)
  have h2: "distinct [?a, ?b]"
    by simp
  have h3: "absolute_urls [?a, ?b]"
    by (simp add: absolute_urls_def startswith_def)
  have h4: "distinct [1, 0 :: nat]"
    by simp
  have h5: "set [1, 0 :: nat] = {0 ..< length [base_record, second_record]}"
    by auto
  have failed: "task_failed (run_task std_urljoin CUSTOM_CONFIG (example_workers 1) ?b)"
    by (simp add: task_failed_def run_task_def example_workers_def)
  from detail_pass_keeps_records [OF h1 h2 h3 h4 h5, of std_urljoin CUSTOM_CONFIG example_workers]
  obtain out where out:
    "detail_pass std_urljoin CUSTOM_CONFIG example_workers [1, 0] [base_record, second_record]
       [?a, ?b] = Inr out"
    "length out = 2"
    "\<forall>i < 2. task_failed (run_task std_urljoin CUSTOM_CONFIG (example_workers i) ([?a, ?b] ! i))
         \<longrightarrow> out ! i = [base_record, second_record] ! i"
    "\<forall>i < 2. out ! i = merged_record std_urljoin CUSTOM_CONFIG (example_workers i)
         ([base_record, second_record] ! i) ([?a, ?b] ! i)"
    by auto
  from out(4) have o0: "out ! 0 = merged_record std_urljoin CUSTOM_CONFIG (example_workers 0)
      base_record ?a"
    by force
  from out(3) failed have o1: "out ! 1 = second_record"
    by force
  have "out = [out ! 0, out ! 1]"
    using out(2) by (intro nth_equalityI) (auto simp: less_Suc_eq numeral_2_eq_2)
  with o0 o1 have "out = [merged_record std_urljoin CUSTOM_CONFIG (example_workers 0)
      base_record ?a, second_record]"
    by simp
  with out(1) failed show ?thesis
    by (simp only: example_merged)
qed

lemma urls_of_append:
  "urls_of a = Inr ua \<Longrightarrow> urls_of b = Inr ub \<Longrightarrow> urls_of (a @ b) = Inr (ua @ ub)"
  by (induction a arbitrary: ua) (auto split: option.splits sum.splits)

lemma collect_pages_urls:
  "collect_pages fuel urljoin cfg net max_pages True current_url page_num books urls tr
     = Some (Inr (books', urls'), tr')
   \<Longrightarrow> urls_of books = Inr urls \<Longrightarrow> urls_of books' = Inr urls'"
proof (induction fuel arbitrary: current_url page_num books urls tr)
  case 0
  then show ?case by simp
next
  case (Suc fuel)
  show ?case
  proof (cases "current_url = [] \<or> (case max_pages of None \<Rightarrow> False
                                      | Some m \<Rightarrow> m \<noteq> 0 \<and> page_num > m)")
    case True
    with Suc.prems show ?thesis by (auto split: if_splits)
  next
    case False
    obtain res tr1 where sp: "scrape_page urljoin current_url cfg net tr = (res, tr1)"
      by (cases "scrape_page urljoin current_url cfg net tr")
    from Suc.prems(1) False sp obtain bs nxt where res: "res = Inr (bs, nxt)"
      by (cases res) (auto split: if_splits)
    from Suc.prems(1) False sp res obtain us where us: "urls_of bs = Inr us"
      by (cases "urls_of bs") (auto split: if_splits)
    note app = urls_of_append [OF Suc.prems(2) us]
    show ?thesis
    proof (cases "\<exists>u. nxt = Some u \<and> u \<noteq> []")
      case True
      then obtain u where u: "nxt = Some u" "u \<noteq> []" by blast
      with Suc.prems(1) False sp res us
      have "collect_pages fuel urljoin cfg net max_pages True u (page_num + 1) (books @ bs)
              (urls @ us) (tr1 @ [Sleep (1 / 10)]) = Some (Inr (books', urls'), tr')"
        by (auto split: if_splits)
      from Suc.IH [OF this app] show ?thesis .
    next
      case no: False
      with Suc.prems(1) False sp res us have "books' = books @ bs" "urls' = urls @ us"
        by (auto split: if_splits option.splits)
      with app show ?thesis by simp
    qed
  qed
qed

text \<open>
  Claim C10. Let the detailed pass be requested, let the page walk end with the base
  records \<open>all_books\<close>, and let their addresses be pairwise distinct and absolute. Then
  \<open>scrape_all_pages\<close> returns one record for each base record, in the order of the page
  walk: record \<open>i\<close> of the output is base record \<open>i\<close> merged in place with the result of
  its task, it has the address of base record \<open>i\<close>, and the same list is returned for
  every order in which the futures complete.
\<close>

theorem scrape_all_pages_detailed_order:
  assumes "collect_pages fuel urljoin cfg net max_pages True
             (base_url cfg @ ''/catalogue/page-1.html'') 1 [] [] []
           = Some (Inr (all_books, detail_urls), tr)"
    and "distinct detail_urls"
    and "absolute_urls detail_urls"
    and "distinct order" and "set order = {0 ..< length all_books}"
    and "distinct order'" and "set order' = {0 ..< length all_books}"
  shows "\<exists>out. scrape_all_pages fuel urljoin workers order net cfg max_pages True
              = Some (Inr out, tr)
       \<and> out = map (\<lambda>i. merged_record urljoin cfg (workers i) (all_books ! i) (detail_urls ! i))
                 [0 ..< length all_books]
       \<and> map record_url out = map record_url all_books
       \<and> scrape_all_pages fuel urljoin workers order' net cfg max_pages True
              = Some (Inr out, tr)"
proof -
  let ?out = "map (\<lambda>i. merged_record urljoin cfg (workers i) (all_books ! i) (detail_urls ! i))
                [0 ..< length all_books]"
  have urls: "urls_of all_books = Inr detail_urls"
    using collect_pages_urls [OF assms(1)] by simp
  have r: "detail_pass urljoin cfg workers order all_books detail_urls = Inr ?out"
    using urls assms(2,4,5) by (rule detail_pass_closed_form)
  have r': "detail_pass urljoin cfg workers order' all_books detail_urls = Inr ?out"
    using urls assms(2,6,7) by (rule detail_pass_closed_form)
  have u: "map record_url ?out = map record_url all_books"
    using urls assms(3) by (rule detail_pass_urls)
  have "scrape_all_pages fuel urljoin workers order net cfg max_pages True = Some (Inr ?out, tr)"
    "scrape_all_pages fuel urljoin workers order' net cfg max_pages True = Some (Inr ?out, tr)"
    by (simp_all add: scrape_all_pages_def assms(1) r r')
  with u show ?thesis
    by blast
qed

lemma three_pages_collect:
  "collect_pages 4 std_urljoin CUSTOM_CONFIG three_pages None True
     (base_url CUSTOM_CONFIG @ ''/catalogue/page-1.html'') 1 [] [] [] =
   Some (Inr (three_page_records,
              [VStr ''https://books.toscrape.com/catalogue/a_1/index.html'',
               VStr ''https://books.toscrape.com/catalogue/b_2/index.html'',
               VStr ''https://books.toscrape.com/catalogue/c_3/index.html'']),
         three_page_walk)"
  by code_simp

lemma three_pages_merged:
  "map (\<lambda>i. merged_record std_urljoin CUSTOM_CONFIG (example_workers i)
              (three_page_records ! i)
              ([VStr ''https://books.toscrape.com/catalogue/a_1/index.html'',
                VStr ''https://books.toscrape.com/catalogue/b_2/index.html'',
                VStr ''https://books.toscrape.com/catalogue/c_3/index.html''] ! i))
     [0 ..< length three_page_records] =
   [[(''title'', VStr ''A Light in the Attic''), (''price'', VFloat (5177 / 100)),
     (''rating'', VInt 3), (''stock'', VInt 22), (''in_stock'', VBool True),
     (''url'', VStr ''https://books.toscrape.com/catalogue/a_1/index.html''),
     (''upc'', VStr ''a897fe39b1053632''), (''tax'', VFloat (1 / 2))],
    listing_record ''b_2'' (5374 / 100), listing_record ''c_3'' (5010 / 100)]"
  by code_simp

theorem scrape_all_pages_detailed_order_witness:
  "scrape_all_pages 4 std_urljoin example_workers [2, 0, 1] three_pages CUSTOM_CONFIG None True =
     Some (Inr [[(''title'', VStr ''A Light in the Attic''), (''price'', VFloat (5177 / 100)),
                 (''rating'', VInt 3), (''stock'', VInt 22), (''in_stock'', VBool True),
                 (''url'', VStr ''https://books.toscrape.com/catalogue/a_1/index.html''),
                 (''upc'', VStr ''a897fe39b1053632''), (''tax'', VFloat (1 / 2))],
                listing_record ''b_2'' (5374 / 100), listing_record ''c_3'' (5010 / 100)],
           three_page_walk)
   \<and> scrape_all_pages 4 std_urljoin example_workers [0, 1, 2] three_pages CUSTOM_CONFIG None True =
     scrape_all_pages 4 std_urljoin example_workers [2, 0, 1] three_pages CUSTOM_CONFIG None True"
proof -
  let ?urls = "[VStr ''https://books.toscrape.com/catalogue/a_1/index.html'',
                VStr ''https://books.toscrape.com/catalogue/b_2/index.html'',
                VStr ''https://books.toscrape.com/catalogue/c_3/index.html'']"
  have h2: "distinct ?urls"
    by simp
  have h3: "absolute_urls ?urls"
    by (simp add: absolute_urls_def startswith_def)
  have len: "length three_page_records = 3"
    by (simp add: three_page_records_def)
  have h4: "distinct [2, 0, 1 :: nat]" and h6: "distinct [0, 1, 2 :: nat]"
    by simp_all
  have h5: "set [2, 0, 1 :: nat] = {0 ..< length three_page_records}"
    and h7: "set [0, 1, 2 :: nat] = {0 ..< length three_page_records}"
    unfolding len by auto
  from scrape_all_pages_detailed_order [OF three_pages_collect h2 h3 h4 h5 h6 h7,
      of example_workers]
  show ?thesis
    by (auto simp only: three_pages_merged)
qed

subsection \<open>A page that cannot be fetched\<close>


lemma scrape_page_fetch_failure:
  assumes "fst (make_request url cfg net tr) = None"
  shows "scrape_page urljoin url cfg net tr = (Inr ([], None), snd (make_request url cfg net tr))"
  using assms by (cases "make_request url cfg net tr") (simp add: scrape_page_def)

text \<open>
  Claim C9. Let the loop of the page walk be about to fetch the page \<open>current_url\<close> (the
  address is not empty and the page cap does not stop the loop), with the records
  \<open>all_books\<close> accumulated so far, and let \<open>make_request\<close> fail on that page. Then the
  loop ends there: it returns the accumulated records as they are, as a result and not as
  an error, and the history ends with the events of that one call of \<open>make_request\<close>,
  so the page is not asked for again. In particular the crawl returns no record when the
  first page cannot be fetched.
\<close>

theorem collect_pages_fetch_failure:
  assumes "current_url \<noteq> []"
    and "\<not> (case max_pages of None \<Rightarrow> False | Some m \<Rightarrow> m \<noteq> 0 \<and> page_num > m)"
    and "fst (make_request current_url cfg net tr) = None"
  shows "collect_pages (Suc fuel) urljoin cfg net max_pages get_detailed current_url page_num
           all_books detail_urls tr
         = Some (Inr (all_books, detail_urls), snd (make_request current_url cfg net tr))
       \<and> (fst (make_request (base_url cfg @ ''/catalogue/page-1.html'') cfg net []) = None
            \<longrightarrow> scrape_all_pages (Suc fuel) urljoin workers order net cfg None False
                  = Some (Inr [], snd (make_request
                        (base_url cfg @ ''/catalogue/page-1.html'') cfg net [])))"
proof -
  have loop: "collect_pages (Suc fuel) urljoin cfg net mp d url n books urls h
         = Some (Inr (books, urls), snd (make_request url cfg net h))"
    if "url \<noteq> []" "\<not> (case mp of None \<Rightarrow> False | Some m \<Rightarrow> m \<noteq> 0 \<and> n > m)"
      "fst (make_request url cfg net h) = None" for mp d url n books urls h
    using that by (simp add: scrape_page_fetch_failure)
  have first: "scrape_all_pages (Suc fuel) urljoin workers order net cfg None False
                  = Some (Inr [], snd (make_request
                        (base_url cfg @ ''/catalogue/page-1.html'') cfg net []))"
    if "fst (make_request (base_url cfg @ ''/catalogue/page-1.html'') cfg net []) = None"
    unfolding scrape_all_pages_def
    by (subst loop) (use that in simp_all)
  from loop [OF assms] first show ?thesis
    by blast
qed

lemma second_page_fails:
  "fst (make_request ''https://books.toscrape.com/catalogue/page-2.html'' CUSTOM_CONFIG
          second_page_down
          [Get ''https://books.toscrape.com/catalogue/page-1.html'', Sleep (1 / 10)]) = None"
  "snd (make_request ''https://books.toscrape.com/catalogue/page-2.html'' CUSTOM_CONFIG
          second_page_down
          [Get ''https://books.toscrape.com/catalogue/page-1.html'', Sleep (1 / 10)]) =
   [Get ''https://books.toscrape.com/catalogue/page-1.html'', Sleep (1 / 10),
    Get ''https://books.toscrape.com/catalogue/page-2.html'', Sleep 1,
    Get ''https://books.toscrape.com/catalogue/page-2.html'', Sleep 2,
    Get ''https://books.toscrape.com/catalogue/page-2.html'', Sleep 4,
    Get ''https://books.toscrape.com/catalogue/page-2.html'']"
  by code_simp+

lemma second_page_down_crawl:
  "scrape_all_pages 4 std_urljoin example_workers [] second_page_down CUSTOM_CONFIG None False =
   Some (Inr [listing_record ''a_1'' (5177 / 100)],
     [Get ''https://books.toscrape.com/catalogue/page-1.html'', Sleep (1 / 10),
      Get ''https://books.toscrape.com/catalogue/page-2.html'', Sleep 1,
      Get ''https://books.toscrape.com/catalogue/page-2.html'', Sleep 2,
      Get ''https://books.toscrape.com/catalogue/page-2.html'', Sleep 4,
      Get ''https://books.toscrape.com/catalogue/page-2.html''])"
  by code_simp

theorem collect_pages_fetch_failure_witness:
  "collect_pages (Suc 2) std_urljoin CUSTOM_CONFIG second_page_down None False
     ''https://books.toscrape.com/catalogue/page-2.html'' 2
     [listing_record ''a_1'' (5177 / 100)] []
     [Get ''https://books.toscrape.com/catalogue/page-1.html'', Sleep (1 / 10)]
   = Some (Inr ([listing_record ''a_1'' (5177 / 100)], []),
       [Get ''https://books.toscrape.com/catalogue/page-1.html'', Sleep (1 / 10),
        Get ''https://books.toscrape.com/catalogue/page-2.html'', Sleep 1,
        Get ''https://books.toscrape.com/catalogue/page-2.html'', Sleep 2,
        Get ''https://books.toscrape.com/catalogue/page-2.html'', Sleep 4,
        Get ''https://books.toscrape.com/catalogue/page-2.html''])
   \<and> scrape_all_pages 4 std_urljoin example_workers [] second_page_down CUSTOM_CONFIG None False
   = Some (Inr [listing_record ''a_1'' (5177 / 100)],
       [Get ''https://books.toscrape.com/catalogue/page-1.html'', Sleep (1 / 10),
        Get ''https://books.toscrape.com/catalogue/page-2.html'', Sleep 1,
        Get ''https://books.toscrape.com/catalogue/page-2.html'', Sleep 2,
        Get ''https://books.toscrape.com/catalogue/page-2.html'', Sleep 4,
        Get ''https://books.toscrape.com/catalogue/page-2.html''])"
proof -
  have h1: "''https://books.toscrape.com/catalogue/page-2.html'' \<noteq> []"
    by simp
  have h2: "\<not> (case None :: int option of None \<Rightarrow> False | Some m \<Rightarrow> m \<noteq> 0 \<and> 2 > m)"
    by simp
  from collect_pages_fetch_failure [OF h1 h2 second_page_fails(1), of 2 std_urljoin False
      "[listing_record ''a_1'' (5177 / 100)]" "[]"]
  show ?thesis
    by (simp only: second_page_fails(2) second_page_down_crawl)
qed

subsection \<open>The page cap\<close>


lemma collect_pages_zero_cap:
  "collect_pages fuel urljoin cfg net (Some 0) get_detailed current_url page_num
     all_books detail_urls tr =
   collect_pages fuel urljoin cfg net None get_detailed current_url page_num
     all_books detail_urls tr"
proof (induction fuel arbitrary: current_url page_num all_books detail_urls tr get_detailed)
  case 0
  show ?case by simp
next
  case (Suc fuel)
  show ?case
    by (simp add: Suc.IH split: prod.splits sum.splits option.splits)
qed

lemma three_pages_uncapped:
  "scrape_all_pages 4 std_urljoin example_workers [] three_pages CUSTOM_CONFIG None False =
     Some (Inr three_page_records, three_page_walk)"
  by code_simp

text \<open>
  Claim C8, at the page cap \<open>0\<close>. The test \<^verbatim>\<open>if max_pages and page_num > max_pages\<close>
  reads the cap \<open>0\<close> as no cap: for every site the crawl with \<open>max_pages = 0\<close> is the
  crawl without a cap, and on the catalogue of three pages it fetches all three pages and
  returns their records, although the ordinal of each of them exceeds the cap.
\<close>

theorem scrape_all_pages_zero_cap:
  "scrape_all_pages fuel urljoin workers order net cfg (Some 0) get_detailed =
   scrape_all_pages fuel urljoin workers order net cfg None get_detailed
   \<and> scrape_all_pages 4 std_urljoin example_workers [] three_pages CUSTOM_CONFIG (Some 0) False =
     Some (Inr three_page_records, three_page_walk)"
proof -
  have eq: "scrape_all_pages fuel urljoin workers order net cfg (Some 0) get_detailed =
      scrape_all_pages fuel urljoin workers order net cfg None get_detailed"
    for fuel urljoin workers order net cfg get_detailed
    by (simp add: scrape_all_pages_def collect_pages_zero_cap)
  show ?thesis
    by (simp only: eq three_pages_uncapped)
qed

text \<open>The rest of claim C8 holds. On the catalogue of three pages the crawl returns the
  records of all three pages in the order of the walk, and the records of the first two
  pages under the cap \<open>2\<close>, where it stops, after the pause, before the third page.\<close>

theorem three_page_catalogue:
  "scrape_all_pages 4 std_urljoin example_workers [] three_pages CUSTOM_CONFIG None False =
     Some (Inr [listing_record ''a_1'' (5177 / 100), listing_record ''b_2'' (5374 / 100),
                listing_record ''c_3'' (5010 / 100)],
           [Get ''https://books.toscrape.com/catalogue/page-1.html'', Sleep (1 / 10),
            Get ''https://books.toscrape.com/catalogue/page-2.html'', Sleep (1 / 10),
            Get ''https://books.toscrape.com/catalogue/page-3.html''])
   \<and> scrape_all_pages 4 std_urljoin example_workers [] three_pages CUSTOM_CONFIG (Some 2) False =
     Some (Inr [listing_record ''a_1'' (5177 / 100), listing_record ''b_2'' (5374 / 100)],
           [Get ''https://books.toscrape.com/catalogue/page-1.html'', Sleep (1 / 10),
            Get ''https://books.toscrape.com/catalogue/page-2.html'', Sleep (1 / 10)])"
  by code_simp

lemma make_request_requests:
  "requests_made (snd (make_request url cfg net tr)) \<le>
     requests_made tr + nat (max_retries cfg + 1)"
  using requests_made_request_attempts [of cfg net url "[0 ..< nat (max_retries cfg + 1)]" tr]
  by (simp add: make_request_def)

lemma scrape_page_requests:
  "requests_made (snd (scrape_page urljoin url cfg net tr)) \<le>
     requests_made tr + nat (max_retries cfg + 1)"
  using make_request_requests [of url cfg net tr]
  by (cases "make_request url cfg net tr")
    (auto simp: scrape_page_def split: option.splits sum.splits)

text \<open>
  With a cap \<open>m\<close> other than \<open>0\<close> the loop fetches no page whose ordinal exceeds the
  cap: at such a page it returns what it has, with the history as it is. From the page
  with the ordinal \<open>page_num\<close> on it therefore runs through at most
  \<open>m - page_num + 1\<close> pages: that much fuel and one more round suffice whatever the
  site links to, and the requests made are at most that many times \<open>max_retries + 1\<close>.
\<close>

theorem collect_pages_cap:
  assumes "m \<noteq> 0"
  shows "(page_num > m \<longrightarrow>
            collect_pages (Suc fuel) urljoin cfg net (Some m) get_detailed current_url page_num
              all_books detail_urls tr = Some (Inr (all_books, detail_urls), tr))
       \<and> (nat (m - page_num + 1) < fuel \<longrightarrow>
            (\<exists>res tr'. collect_pages fuel urljoin cfg net (Some m) get_detailed current_url
                 page_num all_books detail_urls tr = Some (res, tr')
               \<and> requests_made tr' \<le>
                   requests_made tr + nat (m - page_num + 1) * nat (max_retries cfg + 1)))"
proof -
  have stop: "collect_pages (Suc f) urljoin cfg net (Some m) d url n books urls h
      = Some (Inr (books, urls), h)" if "n > m" for f d url n books urls h
    using that assms by simp
  have run: "\<exists>res tr'. collect_pages f urljoin cfg net (Some m) d url n books urls h
                 = Some (res, tr')
               \<and> requests_made tr' \<le>
                   requests_made h + nat (m - n + 1) * nat (max_retries cfg + 1)"
    if "nat (m - n + 1) < f" for f d url n books urls h
    using that
  proof (induction f arbitrary: url n books urls h)
    case 0
    then show ?case by simp
  next
    case (Suc f)
    let ?R = "nat (max_retries cfg + 1)"
    show ?case
    proof (cases "url = [] \<or> n > m")
      case True
      then have "collect_pages (Suc f) urljoin cfg net (Some m) d url n books urls h
          = Some (Inr (books, urls), h)"
        using assms by auto
      then show ?thesis by simp
    next
      case False
      then have n: "n \<le> m" and url: "url \<noteq> []" by auto
      obtain res h1 where sp: "scrape_page urljoin url cfg net h = (res, h1)"
        by (cases "scrape_page urljoin url cfg net h")
      have h1: "requests_made h1 \<le> requests_made h + ?R"
        using scrape_page_requests [of urljoin url cfg net h] sp by simp
      have mono: "requests_made h + ?R \<le> requests_made h + nat (m - n + 1) * ?R"
        using n by (cases "nat (m - n + 1)") auto
      have split_fuel: "nat (m - n + 1) = Suc (nat (m - (n + 1) + 1))"
        using n by simp
      show ?thesis
      proof (cases "\<exists>bs u us. res = Inr (bs, Some u) \<and> u \<noteq> []
                      \<and> (if d then urls_of bs else Inr []) = Inr us")
        case True
        then obtain bs u us where res: "res = Inr (bs, Some u)" "u \<noteq> []"
          "(if d then urls_of bs else Inr []) = Inr us"
          by blast
        have step: "collect_pages (Suc f) urljoin cfg net (Some m) d url n books urls h =
            collect_pages f urljoin cfg net (Some m) d u (n + 1) (books @ bs) (urls @ us)
              (h1 @ [Sleep (1 / 10)])"
          using n url sp res assms by simp
        have "nat (m - (n + 1) + 1) < f"
          using Suc.prems split_fuel by simp
        from Suc.IH [OF this, of u "books @ bs" "urls @ us" "h1 @ [Sleep (1 / 10)]"]
        obtain r t where r: "collect_pages f urljoin cfg net (Some m) d u (n + 1) (books @ bs)
              (urls @ us) (h1 @ [Sleep (1 / 10)]) = Some (r, t)"
          and t: "requests_made t \<le> requests_made (h1 @ [Sleep (1 / 10)])
                     + nat (m - (n + 1) + 1) * ?R"
          by blast
        have "requests_made (h1 @ [Sleep (1 / 10)]) = requests_made h1"
          by (simp add: requests_made_def)
        with t h1 have "requests_made t \<le> requests_made h + nat (m - n + 1) * ?R"
          unfolding split_fuel by simp
        with r step show ?thesis by simp
      next
        case False
        then have "\<exists>r. collect_pages (Suc f) urljoin cfg net (Some m) d url n books urls h
            = Some (r, h1)"
          using n url sp assms
          by (cases res) (auto split: option.splits sum.splits if_splits)
        with h1 mono show ?thesis
          by (metis (no_types, lifting) order_trans)
      qed
    qed
  qed
  from stop run show ?thesis
    by blast
qed

theorem collect_pages_cap_witness:
  "(2 :: int) \<noteq> 0
   \<and> collect_pages (Suc 0) std_urljoin CUSTOM_CONFIG three_pages (Some 2) False
        ''https://books.toscrape.com/catalogue/page-3.html'' 3 [] [] [] = Some (Inr ([], []), [])
   \<and> (\<exists>res tr'. collect_pages 4 std_urljoin CUSTOM_CONFIG three_pages (Some 2) False
          ''https://books.toscrape.com/catalogue/page-1.html'' 1 [] [] [] = Some (res, tr')
        \<and> requests_made tr' \<le> 0 + 2 * 4)"
proof -
  have h: "(2 :: int) \<noteq> 0" by simp
  have a: "(3 :: int) > 2" by simp
  have b: "nat (2 - 1 + 1) < (4 :: nat)" by simp
  from collect_pages_cap [OF h, of 3 0 std_urljoin CUSTOM_CONFIG three_pages False
      "''https://books.toscrape.com/catalogue/page-3.html''" "[]" "[]" "[]"] a
  have c1: "collect_pages (Suc 0) std_urljoin CUSTOM_CONFIG three_pages (Some 2) False
        ''https://books.toscrape.com/catalogue/page-3.html'' 3 [] [] [] = Some (Inr ([], []), [])"
    by blast
  from collect_pages_cap [OF h, of 1 4 std_urljoin CUSTOM_CONFIG three_pages False
      "''https://books.toscrape.com/catalogue/page-1.html''" "[]" "[]" "[]"] b
  have c2: "\<exists>res tr'. collect_pages 4 std_urljoin CUSTOM_CONFIG three_pages (Some 2) False
          ''https://books.toscrape.com/catalogue/page-1.html'' 1 [] [] [] = Some (res, tr')
        \<and> requests_made tr' \<le> 0 + 2 * 4"
    by (simp add: CUSTOM_CONFIG_def requests_made_def)
  from h c1 c2 show ?thesis
    by blast
qed

subsection \<open>The price on a detail page\<close>


text \<open>The detail page reads its price by the same rule, and no later step of
  \<open>detail_fields\<close> writes the field again.\<close>

lemma table_row_price:
  "table_row row d = Inr d' \<Longrightarrow> map_of d' ''price'' = map_of d ''price''"
  by (auto simp: table_row_def Let_def update_conv' split: option.splits if_splits sum.splits)

lemma table_rows_price:
  "table_rows rows d = Inr d' \<Longrightarrow> map_of d' ''price'' = map_of d ''price''"
proof (induction rows arbitrary: d)
  case Nil
  then show ?case by simp
next
  case (Cons row rows)
  then show ?case
    by (auto split: sum.splits dest: table_row_price)
qed

lemma detail_table_price:
  "detail_table soup d = Inr d' \<Longrightarrow> map_of d' ''price'' = map_of d ''price''"
  by (auto simp: detail_table_def split: option.splits dest: table_rows_price)

lemma detail_category_price:
  "map_of (detail_category soup d) ''price'' = map_of d ''price''"
  by (auto simp: detail_category_def Let_def update_conv' split: option.splits)

lemma detail_image_price:
  "detail_image urljoin soup cfg d = Inr d' \<Longrightarrow> map_of d' ''price'' = map_of d ''price''"
  by (auto simp: detail_image_def Let_def update_conv' split: option.splits if_splits sum.splits)

lemma detail_fields_price:
  assumes "detail_fields urljoin soup url cfg = Inr d"
  shows "\<exists>x. number_or_zero (price_text soup) = Inr x \<and> map_of d ''price'' = Some (VFloat x)"
proof -
  have step: "map_of (AList.update ''url'' (VStr url) i) ''price'' = Some (VFloat x)"
    if "detail_table soup d0 = Inr t" "map_of d0 ''price'' = Some (VFloat x)"
      "detail_image urljoin soup cfg (detail_category soup t) = Inr i" for d0 t i x
    using detail_image_price [OF that(3)] detail_table_price [OF that(1)] that(2)
    by (simp add: update_conv' detail_category_price)
  from assms show ?thesis
    by (auto simp: detail_fields_def price_text_def split: option.splits sum.splits
        intro: step)
qed

end
